theory Spec2Isabelle
  imports Complex_Main "HOL-Library.Sublist"
begin

section \<open>Documents\<close>

text \<open>
  The path codec of \<^verbatim>\<open>agentic_billing_usage_script.py\<close>: \<^verbatim>\<open>flatten_dict\<close>,
  \<^verbatim>\<open>set_nested_value\<close> and \<^verbatim>\<open>get_nested_value\<close>.

  A Python string is a list of characters; a \<^typ>\<open>char\<close> stands for a code point
  below 256. A dictionary is an association list in insertion order. Its keys are strings in
  every event template, but \<^verbatim>\<open>set_nested_value\<close> converts an all-digit segment with
  \<^verbatim>\<open>int\<close> before it uses it, also on a dictionary, so a key is a string or a
  non-negative integer. A Python \<^verbatim>\<open>float\<close> is represented by the exact value of its
  decimal literal; rounding to binary64 is not modelled.
\<close>

datatype error = KeyError | IndexError | TypeError | ValueError | AttributeError

datatype key = KStr string | KInt nat

datatype json =
    JNull
  | JBool bool
  | JInt int
  | JFloat rat
  | JStr string
  | JList "json list"
  | JDict "(key \<times> json) list"

section \<open>Python built-ins used by the codec\<close>

definition is_ascii_digit :: "char \<Rightarrow> bool" where
  "is_ascii_digit c = (48 \<le> (of_char c :: nat) \<and> (of_char c :: nat) \<le> 57)"

text \<open>
  \<^verbatim>\<open>str.isdigit\<close>: true for a non-empty string of digit characters. Below 256 these
  are the ASCII digits and the superscripts two, three and one (178, 179, 185), which
  \<^verbatim>\<open>int\<close> refuses.
\<close>

definition isdigit_char :: "char \<Rightarrow> bool" where
  "isdigit_char c = (is_ascii_digit c \<or> (of_char c :: nat) = 178
     \<or> (of_char c :: nat) = 179 \<or> (of_char c :: nat) = 185)"

definition isdigit :: "string \<Rightarrow> bool" where
  "isdigit s = (s \<noteq> [] \<and> list_all isdigit_char s)"

definition digit_val :: "char \<Rightarrow> nat" where
  "digit_val c = of_char c - 48"

definition nat_of_digits :: "string \<Rightarrow> nat" where
  "nat_of_digits s = foldl (\<lambda>n c. 10 * n + digit_val c) 0 s"

text \<open>
  The white space that \<^verbatim>\<open>int\<close> and \<^verbatim>\<open>float\<close> strip from a string: below 256, the
  characters 9 to 13, the space, and the code points 133 and 160.
\<close>

definition is_space :: "char \<Rightarrow> bool" where
  "is_space c = ((9 \<le> (of_char c :: nat) \<and> (of_char c :: nat) \<le> 13) \<or> (of_char c :: nat) = 32
     \<or> (of_char c :: nat) = 133 \<or> (of_char c :: nat) = 160)"

definition strip :: "string \<Rightarrow> string" where
  "strip s = rev (dropWhile is_space (rev (dropWhile is_space s)))"

text \<open>
  A group of digits as \<^verbatim>\<open>int\<close> and \<^verbatim>\<open>float\<close> read it: ASCII digits, with single
  underscores allowed between two digits. The flag says that the previous character was a
  digit.
\<close>

fun digit_group :: "bool \<Rightarrow> string \<Rightarrow> bool" where
  "digit_group p [] = p"
| "digit_group p (c # cs) =
     (if is_ascii_digit c then digit_group True cs
      else if c = CHR ''_'' \<and> p then (case cs of [] \<Rightarrow> False | d # _ \<Rightarrow> is_ascii_digit d \<and> digit_group False cs)
      else False)"

definition read_digits :: "string \<Rightarrow> nat option" where
  "read_digits s =
     (if digit_group False s then Some (nat_of_digits (filter (\<lambda>c. c \<noteq> CHR ''_'') s)) else None)"

text \<open>
  \<^verbatim>\<open>int(value)\<close> on a string, base 10; \<open>None\<close> is ValueError. The interpreter's
  bound on the number of digits of a literal (4300 by default in recent versions) is left
  out.
\<close>

definition py_int :: "string \<Rightarrow> int option" where
  "py_int s =
     (case strip s of
        [] \<Rightarrow> None
      | c # cs \<Rightarrow>
          if c = CHR ''-'' then map_option (\<lambda>n. - int n) (read_digits cs)
          else if c = CHR ''+'' then map_option int (read_digits cs)
          else map_option int (read_digits (c # cs)))"

text \<open>
  \<^verbatim>\<open>float(value)\<close> on a string; \<open>None\<close> is ValueError. The codec calls it only on a
  text that contains a dot, and no spelling of infinity or of NaN contains one, so only the
  decimal form is read: sign, digits with an optional fraction, optional exponent.
\<close>

definition read_group_opt :: "string \<Rightarrow> nat option" where
  "read_group_opt s = (if s = [] then Some 0 else read_digits s)"

definition read_mantissa :: "string \<Rightarrow> (nat \<times> nat) option" where
  "read_mantissa m =
     (let ip = takeWhile (\<lambda>c. c \<noteq> CHR ''.'') m;
          r = dropWhile (\<lambda>c. c \<noteq> CHR ''.'') m;
          fp = (case r of [] \<Rightarrow> [] | _ # f \<Rightarrow> f)
      in if ip = [] \<and> fp = [] then None
         else (case (read_group_opt ip, read_group_opt fp) of
                 (Some _, Some _) \<Rightarrow>
                   (let fd = filter (\<lambda>c. c \<noteq> CHR ''_'') fp
                    in Some (nat_of_digits (filter (\<lambda>c. c \<noteq> CHR ''_'') ip @ fd), length fd))
               | _ \<Rightarrow> None))"

definition read_exponent :: "string \<Rightarrow> int option" where
  "read_exponent r =
     (case r of
        [] \<Rightarrow> Some 0
      | _ # ex \<Rightarrow>
          (case ex of
             [] \<Rightarrow> None
           | c # cs \<Rightarrow>
               if c = CHR ''-'' then map_option (\<lambda>n. - int n) (read_digits cs)
               else if c = CHR ''+'' then map_option int (read_digits cs)
               else map_option int (read_digits (c # cs))))"

definition scale10 :: "nat \<Rightarrow> int \<Rightarrow> rat" where
  "scale10 m e = (if 0 \<le> e then of_nat m * 10 ^ nat e else of_nat m / 10 ^ nat (- e))"

definition read_unsigned_float :: "string \<Rightarrow> rat option" where
  "read_unsigned_float s =
     (let m = takeWhile (\<lambda>c. c \<noteq> CHR ''e'' \<and> c \<noteq> CHR ''E'') s;
          r = dropWhile (\<lambda>c. c \<noteq> CHR ''e'' \<and> c \<noteq> CHR ''E'') s
      in case (read_mantissa m, read_exponent r) of
           (Some (d, n), Some e) \<Rightarrow> Some (scale10 d (e - int n))
         | _ \<Rightarrow> None)"

definition py_float :: "string \<Rightarrow> rat option" where
  "py_float s =
     (case strip s of
        [] \<Rightarrow> None
      | c # cs \<Rightarrow>
          if c = CHR ''-'' then map_option uminus (read_unsigned_float cs)
          else if c = CHR ''+'' then read_unsigned_float cs
          else read_unsigned_float (c # cs))"

text \<open>\<^verbatim>\<open>str(i)\<close> for a non-negative integer.\<close>

definition digit_char :: "nat \<Rightarrow> char" where
  "digit_char d = char_of (48 + d)"

fun show_nat :: "nat \<Rightarrow> string" where
  "show_nat n = (if n < 10 then [digit_char n] else show_nat (n div 10) @ [digit_char (n mod 10)])"

declare show_nat.simps [simp del]

text \<open>\<^verbatim>\<open>s.split(c)\<close> for a one-character separator: never empty, keeps empty pieces.\<close>

fun split_on :: "char \<Rightarrow> string \<Rightarrow> string list" where
  "split_on c [] = [[]]"
| "split_on c (x # xs) =
     (if x = c then [] # split_on c xs
      else (case split_on c xs of [] \<Rightarrow> [[x]] | p # ps \<Rightarrow> (x # p) # ps))"

section \<open>Paths\<close>

text \<open>
  \<^verbatim>\<open>keys = path.replace(']', '').split('[')\<close>, then
  \<^verbatim>\<open>keys = [k for part in keys for k in part.split('.') if k]\<close>.
\<close>

definition path_keys :: "string \<Rightarrow> string list" where
  "path_keys path =
     filter (\<lambda>k. k \<noteq> [])
       (concat (map (split_on CHR ''.'') (split_on CHR ''['' (filter (\<lambda>c. c \<noteq> CHR '']'') path))))"

text \<open>\<^verbatim>\<open>if key.isdigit(): key = int(key)\<close>.\<close>

definition key_of :: "string \<Rightarrow> error + key" where
  "key_of k =
     (if isdigit k then (case py_int k of None \<Rightarrow> Inl ValueError | Some n \<Rightarrow> Inr (KInt (nat n)))
      else Inr (KStr k))"

section \<open>Reading\<close>

text \<open>
  \<^verbatim>\<open>current[key]\<close>. A dictionary raises KeyError on a missing key, a list IndexError
  out of range and TypeError on a string key; a string indexed by an integer gives the
  one-character string there; every other value is not subscriptable.
\<close>

fun subscript :: "json \<Rightarrow> key \<Rightarrow> error + json" where
  "subscript (JDict kvs) k = (case map_of kvs k of None \<Rightarrow> Inl KeyError | Some v \<Rightarrow> Inr v)"
| "subscript (JList xs) (KInt i) = (if i < length xs then Inr (xs ! i) else Inl IndexError)"
| "subscript (JList xs) (KStr s) = Inl TypeError"
| "subscript (JStr s) (KInt i) = (if i < length s then Inr (JStr [s ! i]) else Inl IndexError)"
| "subscript (JStr s) (KStr k) = Inl TypeError"
| "subscript _ _ = Inl TypeError"

fun get_walk :: "json \<Rightarrow> string list \<Rightarrow> error + json" where
  "get_walk cur [] = Inr cur"
| "get_walk cur (k # ks) =
     (case key_of k of
        Inl e \<Rightarrow> Inl e
      | Inr key \<Rightarrow> (case subscript cur key of Inl e \<Rightarrow> Inl e | Inr c \<Rightarrow> get_walk c ks))"

definition get_nested_value :: "json \<Rightarrow> string \<Rightarrow> error + json" where
  "get_nested_value d path = get_walk d (path_keys path)"

section \<open>Writing\<close>

text \<open>\<^verbatim>\<open>d[k] = v\<close> on a dictionary: in place when the key exists, appended otherwise.\<close>

fun dict_set :: "(key \<times> json) list \<Rightarrow> key \<Rightarrow> json \<Rightarrow> (key \<times> json) list" where
  "dict_set [] k v = [(k, v)]"
| "dict_set ((k', v') # kvs) k v =
     (if k' = k then (k, v) # kvs else (k', v') # dict_set kvs k v)"

text \<open>\<^verbatim>\<open>current[key] = value\<close>.\<close>

fun store :: "json \<Rightarrow> key \<Rightarrow> json \<Rightarrow> error + json" where
  "store (JDict kvs) k v = Inr (JDict (dict_set kvs k v))"
| "store (JList xs) (KInt i) v = (if i < length xs then Inr (JList (xs[i := v])) else Inl IndexError)"
| "store _ _ _ = Inl TypeError"

text \<open>\<^verbatim>\<open>isinstance(x, (int, float))\<close>; \<^verbatim>\<open>bool\<close> is a subclass of \<^verbatim>\<open>int\<close>.\<close>

fun is_number :: "json \<Rightarrow> bool" where
  "is_number (JInt _) = True"
| "is_number (JFloat _) = True"
| "is_number (JBool _) = True"
| "is_number _ = False"

text \<open>
  \<^verbatim>\<open>try: value = float(value) if '.' in value else int(value)\<close>, \<^verbatim>\<open>except: pass\<close>.
  For a value that is not a string, the membership test or the conversion raises TypeError,
  which the bare \<^verbatim>\<open>except\<close> swallows.
\<close>

fun coerce :: "json \<Rightarrow> json" where
  "coerce (JStr s) =
     (if CHR ''.'' \<in> set s
      then (case py_float s of None \<Rightarrow> JStr s | Some f \<Rightarrow> JFloat f)
      else (case py_int s of None \<Rightarrow> JStr s | Some n \<Rightarrow> JInt n))"
| "coerce v = v"

text \<open>
  The result of a write is the exception raised, if any, and the document as the call
  leaves it: the mutation is in place, so what was changed before an exception stays.
\<close>

definition set_leaf :: "json \<Rightarrow> string \<Rightarrow> json \<Rightarrow> error option \<times> json" where
  "set_leaf cur k v =
     (case key_of k of
        Inl e \<Rightarrow> (Some e, cur)
      | Inr key \<Rightarrow>
          (case subscript cur key of
             Inl e \<Rightarrow> (Some e, cur)
           | Inr old \<Rightarrow>
               (case store cur key (if is_number old then coerce v else v) of
                  Inl e \<Rightarrow> (Some e, cur)
                | Inr cur' \<Rightarrow> (None, cur'))))"

fun set_walk :: "json \<Rightarrow> string list \<Rightarrow> json \<Rightarrow> error option \<times> json" where
  "set_walk cur [] v = (Some IndexError, cur)"
| "set_walk cur [k] v = set_leaf cur k v"
| "set_walk cur (k # k' # ks) v =
     (case key_of k of
        Inl e \<Rightarrow> (Some e, cur)
      | Inr key \<Rightarrow>
          (case cur of
             JList xs \<Rightarrow>
               (case key of
                  KStr s \<Rightarrow> (Some TypeError, cur)
                | KInt i \<Rightarrow>
                    if i < length xs
                    then (case set_walk (xs ! i) (k' # ks) v of (e, c') \<Rightarrow> (e, JList (xs[i := c'])))
                    else (Some IndexError, cur))
           | JDict kvs \<Rightarrow>
               (case map_of kvs key of
                  Some c \<Rightarrow>
                    (case set_walk c (k' # ks) v of (e, c') \<Rightarrow> (e, JDict (dict_set kvs key c')))
                | None \<Rightarrow>
                    (case set_walk (if isdigit k' then JList [] else JDict []) (k' # ks) v of
                       (e, c') \<Rightarrow> (e, JDict (dict_set kvs key c'))))
           | _ \<Rightarrow> (Some TypeError, cur)))"

definition set_nested_value :: "json \<Rightarrow> string \<Rightarrow> json \<Rightarrow> error option \<times> json" where
  "set_nested_value d path v = set_walk d (path_keys path) v"

section \<open>Flattening\<close>

text \<open>\<^verbatim>\<open>dict(items)\<close>: a repeated key keeps its first position and takes the last value.\<close>

definition py_dict :: "(key \<times> json) list \<Rightarrow> (key \<times> json) list" where
  "py_dict items = foldl (\<lambda>d (k, v). dict_set d k v) [] items"

definition key_str :: "key \<Rightarrow> string" where
  "key_str k = (case k of KStr s \<Rightarrow> s | KInt n \<Rightarrow> show_nat n)"

definition truthy :: "key \<Rightarrow> bool" where
  "truthy k = (case k of KStr s \<Rightarrow> s \<noteq> [] | KInt n \<Rightarrow> n \<noteq> 0)"

text \<open>\<^verbatim>\<open>new_key = f"{parent_key}{sep}{k}" if parent_key else k\<close>.\<close>

definition new_key :: "key \<Rightarrow> string \<Rightarrow> key \<Rightarrow> key" where
  "new_key parent_key sep k =
     (if truthy parent_key then KStr (key_str parent_key @ sep @ key_str k) else k)"

text \<open>\<^verbatim>\<open>f"{new_key}[{i}]"\<close>.\<close>

definition idx_key :: "key \<Rightarrow> nat \<Rightarrow> key" where
  "idx_key nk i = KStr (key_str nk @ ''['' @ show_nat i @ '']'')"

text \<open>
  The two loops of \<^verbatim>\<open>flatten_dict\<close>: over the items of a dictionary, and over the
  elements of a list value with their index. A recursive call returns a dictionary, so its
  items pass through \<^verbatim>\<open>dict\<close> before they are appended.
\<close>

function flatten_items :: "(key \<times> json) list \<Rightarrow> key \<Rightarrow> string \<Rightarrow> (key \<times> json) list"
  and flatten_elems :: "json list \<Rightarrow> nat \<Rightarrow> key \<Rightarrow> string \<Rightarrow> (key \<times> json) list"
where
  "flatten_items [] parent_key sep = []"
| "flatten_items ((k, v) # kvs) parent_key sep =
     (case v of
        JDict sub \<Rightarrow> py_dict (flatten_items sub (new_key parent_key sep k) sep)
      | JList xs \<Rightarrow> flatten_elems xs 0 (new_key parent_key sep k) sep
      | _ \<Rightarrow> [(new_key parent_key sep k, v)])
     @ flatten_items kvs parent_key sep"
| "flatten_elems [] i nk sep = []"
| "flatten_elems (x # xs) i nk sep =
     (case x of
        JDict sub \<Rightarrow> py_dict (flatten_items sub (idx_key nk i) sep)
      | _ \<Rightarrow> [(idx_key nk i, x)])
     @ flatten_elems xs (Suc i) nk sep"
  by pat_completeness auto
termination
  by (relation "measure (\<lambda>a. case a of
         Inl (kvs, _, _) \<Rightarrow> size_list (size_prod (\<lambda>_. 0) size) kvs
       | Inr (xs, _, _, _) \<Rightarrow> size_list size xs)") auto

text \<open>
  \<^verbatim>\<open>flatten_dict(d, parent_key, sep)\<close>; \<^verbatim>\<open>d.items()\<close> raises AttributeError when
  \<^verbatim>\<open>d\<close> is not a dictionary.
\<close>

definition flatten_dict :: "json \<Rightarrow> key \<Rightarrow> string \<Rightarrow> error + (key \<times> json) list" where
  "flatten_dict d parent_key sep =
     (case d of
        JDict kvs \<Rightarrow> Inr (py_dict (flatten_items kvs parent_key sep))
      | _ \<Rightarrow> Inl AttributeError)"

definition flatten :: "json \<Rightarrow> error + (key \<times> json) list" where
  "flatten d = flatten_dict d (KStr []) ''.''"

section \<open>Addresses\<close>

text \<open>
  The spec's reading of a path: a sequence of object keys and array indices that names one
  node of the document. \<open>child\<close> descends one step through an object or an array, never
  into a scalar; \<open>node_at\<close> follows an address, \<open>put_at\<close> replaces the node at an address
  that exists; \<open>addr\<close> converts the segments of a path the way the codec does, one
  \<open>key_of\<close> per segment.
\<close>

fun child :: "json \<Rightarrow> key \<Rightarrow> json option" where
  "child (JDict kvs) k = map_of kvs k"
| "child (JList xs) (KInt i) = (if i < length xs then Some (xs ! i) else None)"
| "child _ _ = None"

fun node_at :: "json \<Rightarrow> key list \<Rightarrow> json option" where
  "node_at d [] = Some d"
| "node_at d (k # ks) = (case child d k of None \<Rightarrow> None | Some c \<Rightarrow> node_at c ks)"

fun put_child :: "json \<Rightarrow> key \<Rightarrow> json \<Rightarrow> json" where
  "put_child (JDict kvs) k c = JDict (dict_set kvs k c)"
| "put_child (JList xs) (KInt i) c = JList (xs[i := c])"
| "put_child d _ _ = d"

fun put_at :: "json \<Rightarrow> key list \<Rightarrow> json \<Rightarrow> json" where
  "put_at d [] v = v"
| "put_at d (k # ks) v =
     (case child d k of None \<Rightarrow> d | Some c \<Rightarrow> put_child d k (put_at c ks v))"

fun addr :: "string list \<Rightarrow> key list option" where
  "addr [] = Some []"
| "addr (k # ks) =
     (case key_of k of Inl e \<Rightarrow> None | Inr key \<Rightarrow> map_option ((#) key) (addr ks))"

definition path_addr :: "string \<Rightarrow> key list option" where
  "path_addr path = addr (path_keys path)"


fun is_text :: "json \<Rightarrow> bool" where
  "is_text (JStr _) = True"
| "is_text _ = False"

fun is_bool :: "json \<Rightarrow> bool" where
  "is_bool (JBool _) = True"
| "is_bool _ = False"

fun is_str_key :: "key \<Rightarrow> bool" where
  "is_str_key (KStr _) = True"
| "is_str_key (KInt _) = False"

text \<open>What \<^verbatim>\<open>set_nested_value\<close> writes over a node that holds \<open>old\<close>.\<close>

definition stored :: "json \<Rightarrow> json \<Rightarrow> json" where
  "stored old v = (if is_number old then coerce v else v)"

text \<open>
  A segment that cannot be resolved at a node, in the cases the spec lists for
  \<^verbatim>\<open>getByPath\<close>: a key segment missing from an object or applied to an array, an index
  segment out of range for an array or applied to an object (a dictionary whose keys are
  all strings).
\<close>

definition unresolvable :: "json \<Rightarrow> string \<Rightarrow> bool" where
  "unresolvable n k =
     (case n of
        JDict kvs \<Rightarrow>
          if isdigit k then list_all (\<lambda>kv. is_str_key (fst kv)) kvs
          else map_of kvs (KStr k) = None
      | JList xs \<Rightarrow>
          if isdigit k then (case key_of k of Inr (KInt i) \<Rightarrow> length xs \<le> i | _ \<Rightarrow> True)
          else True
      | _ \<Rightarrow> False)"

text \<open>The example document of the spec's coercion test, with the quantity as a parameter.\<close>

definition meters_doc :: "json \<Rightarrow> json" where
  "meters_doc q =
     JDict [(KStr ''data'', JDict [(KStr ''meters'', JList [JDict [(KStr ''quantity'', q)]])])]"

section \<open>Conditions on documents and the round trip\<close>

text \<open>
  A key that a path can carry: a non-empty string without \<^verbatim>\<open>.\<close>, \<^verbatim>\<open>[\<close> or
  \<^verbatim>\<open>]\<close> that \<^verbatim>\<open>isdigit\<close> rejects.
\<close>

definition sep_free :: "string \<Rightarrow> bool" where
  "sep_free k = list_all (\<lambda>c. c \<noteq> CHR ''.'' \<and> c \<noteq> CHR ''['' \<and> c \<noteq> CHR '']'') k"

definition plain_key :: "key \<Rightarrow> bool" where
  "plain_key k = (case k of KStr s \<Rightarrow> s \<noteq> [] \<and> \<not> isdigit s \<and> sep_free s | KInt n \<Rightarrow> False)"

text \<open>
  The dictionaries that \<^verbatim>\<open>flatten_dict\<close> descends into (values of keys, and elements
  of a list that is the value of a key) have plain keys, no key twice.
\<close>

function plain_items :: "(key \<times> json) list \<Rightarrow> bool"
  and plain_elems :: "json list \<Rightarrow> bool"
where
  "plain_items [] = True"
| "plain_items ((k, v) # kvs) =
     (plain_key k \<and> k \<notin> set (map fst kvs)
      \<and> (case v of JDict sub \<Rightarrow> plain_items sub | JList xs \<Rightarrow> plain_elems xs | _ \<Rightarrow> True)
      \<and> plain_items kvs)"
| "plain_elems [] = True"
| "plain_elems (x # xs) =
     ((case x of JDict sub \<Rightarrow> plain_items sub | _ \<Rightarrow> True) \<and> plain_elems xs)"
  by pat_completeness auto
termination
  by (relation "measure (\<lambda>a. case a of
         Inl kvs \<Rightarrow> size_list (size_prod (\<lambda>_. 0) size) kvs
       | Inr xs \<Rightarrow> size_list size xs)") auto


definition plain_doc :: "json \<Rightarrow> bool" where
  "plain_doc d = (case d of JDict kvs \<Rightarrow> plain_items kvs | _ \<Rightarrow> False)"

text \<open>
  The round trip of the spec: every pair of \<^verbatim>\<open>flatten_dict(d)\<close> is written back with
  \<^verbatim>\<open>set_nested_value\<close>, in order, on a copy of \<^verbatim>\<open>d\<close>; the first exception ends it.
  A path that is an integer has no \<^verbatim>\<open>replace\<close> method.
\<close>

fun apply_pairs :: "json \<Rightarrow> (key \<times> json) list \<Rightarrow> error + json" where
  "apply_pairs d [] = Inr d"
| "apply_pairs d ((p, v) # rest) =
     (case p of
        KInt n \<Rightarrow> Inl AttributeError
      | KStr s \<Rightarrow>
          (case set_nested_value d s v of
             (Some e, d') \<Rightarrow> Inl e
           | (None, d') \<Rightarrow> apply_pairs d' rest))"

definition round_trip :: "json \<Rightarrow> error + json" where
  "round_trip d = (case flatten d of Inl e \<Rightarrow> Inl e | Inr fl \<Rightarrow> apply_pairs d fl)"

text \<open>The scalar leaves of a document, counted over the whole tree.\<close>

function count_leaves :: "json \<Rightarrow> nat"
  and count_leaves_items :: "(key \<times> json) list \<Rightarrow> nat"
  and count_leaves_elems :: "json list \<Rightarrow> nat"
where
  "count_leaves (JDict kvs) = count_leaves_items kvs"
| "count_leaves (JList xs) = count_leaves_elems xs"
| "count_leaves JNull = 1"
| "count_leaves (JBool b) = 1"
| "count_leaves (JInt n) = 1"
| "count_leaves (JFloat f) = 1"
| "count_leaves (JStr s) = 1"
| "count_leaves_items [] = 0"
| "count_leaves_items ((k, v) # kvs) = count_leaves v + count_leaves_items kvs"
| "count_leaves_elems [] = 0"
| "count_leaves_elems (x # xs) = count_leaves x + count_leaves_elems xs"
  by pat_completeness auto
termination
  by (relation "measure (\<lambda>a. case a of
         Inl d \<Rightarrow> 2 * size d
       | Inr (Inl kvs) \<Rightarrow> 2 * size_list (size_prod (\<lambda>_. 0) size) kvs + 1
       | Inr (Inr xs) \<Rightarrow> 2 * size_list size xs + 1)") auto

text \<open>
  The condition under which the flat view has one entry for each leaf: the objects that
  \<^verbatim>\<open>flatten_dict\<close> descends into have string keys without \<^verbatim>\<open>.\<close> and \<^verbatim>\<open>[\<close>, no key
  twice, no list is an element of a list, the root is an object and its keys are not empty.
\<close>

definition cover_key :: "key \<Rightarrow> bool" where
  "cover_key k = (case k of KStr s \<Rightarrow> CHR ''.'' \<notin> set s \<and> CHR ''['' \<notin> set s | KInt n \<Rightarrow> False)"

function cover_items :: "(key \<times> json) list \<Rightarrow> bool"
  and cover_elems :: "json list \<Rightarrow> bool"
where
  "cover_items [] = True"
| "cover_items ((k, v) # kvs) =
     (cover_key k \<and> k \<notin> set (map fst kvs)
      \<and> (case v of JDict sub \<Rightarrow> cover_items sub | JList xs \<Rightarrow> cover_elems xs | _ \<Rightarrow> True)
      \<and> cover_items kvs)"
| "cover_elems [] = True"
| "cover_elems (x # xs) =
     ((case x of JDict sub \<Rightarrow> cover_items sub | JList ys \<Rightarrow> False | _ \<Rightarrow> True)
      \<and> cover_elems xs)"
  by pat_completeness auto
termination
  by (relation "measure (\<lambda>a. case a of
         Inl kvs \<Rightarrow> size_list (size_prod (\<lambda>_. 0) size) kvs
       | Inr xs \<Rightarrow> size_list size xs)") auto

definition cover_doc :: "json \<Rightarrow> bool" where
  "cover_doc d =
     (case d of
        JDict kvs \<Rightarrow> list_all (\<lambda>kv. fst kv \<noteq> KStr []) kvs \<and> cover_items kvs
      | _ \<Rightarrow> False)"


text \<open>The pieces of a path before the empty ones are dropped.\<close>

definition raw_keys :: "string \<Rightarrow> string list" where
  "raw_keys s = concat (map (split_on CHR ''.'') (split_on CHR ''['' s))"

text \<open>The pieces of the path of a parent key; the empty parent key of the root has none.\<close>

definition path_base :: "key \<Rightarrow> string list" where
  "path_base pk = (if key_str pk = [] then [] else raw_keys (key_str pk))"

section \<open>Association lists and addresses\<close>

lemma map_of_dict_set:
  "map_of (dict_set kvs k v) k' = (if k' = k then Some v else map_of kvs k')"
  by (induction kvs) auto

lemma dict_set_same: "map_of kvs k = Some v \<Longrightarrow> dict_set kvs k v = kvs"
  by (induction kvs) (auto split: if_splits)

lemma dict_set_twice: "dict_set (dict_set kvs k v) k w = dict_set kvs k w"
  by (induction kvs) auto

lemma child_put_child:
  "child d k = Some c \<Longrightarrow> child (put_child d k c') k' = (if k' = k then Some c' else child d k')"
  by (cases "(d, k)" rule: child.cases; cases k') (auto simp: map_of_dict_set split: if_splits)

lemma put_child_same: "child d k = Some c \<Longrightarrow> put_child d k c = d"
  by (cases "(d, k)" rule: child.cases) (auto simp: dict_set_same split: if_splits)

lemma put_child_twice: "put_child (put_child d k c) k c' = put_child d k c'"
  by (cases "(d, k, c)" rule: put_child.cases) (auto simp: dict_set_twice)

lemma subscript_child: "child d k = Some c \<Longrightarrow> subscript d k = Inr c"
  by (cases "(d, k)" rule: child.cases) (auto split: if_splits)

lemma store_child: "child d k = Some c \<Longrightarrow> store d k v = Inr (put_child d k v)"
  by (cases "(d, k)" rule: child.cases) (auto split: if_splits)

lemma store_Inr:
  "store d k v = Inr d' \<Longrightarrow> subscript d k = Inr old \<Longrightarrow> child d k = Some old \<and> d' = put_child d k v"
  by (cases "(d, k, v)" rule: store.cases) (auto split: if_splits option.splits)



lemma node_at_put_at: "node_at d a = Some old \<Longrightarrow> node_at (put_at d a v) a = Some v"
  by (induction d a arbitrary: old rule: node_at.induct)
     (auto simp: child_put_child split: option.splits)

lemma put_at_same: "node_at d a = Some v \<Longrightarrow> put_at d a v = d"
  by (induction d a rule: node_at.induct) (auto simp: put_child_same split: option.splits)

lemma put_at_twice: "put_at (put_at d a v) a w = put_at d a w"
  by (induction d a rule: node_at.induct)
     (auto simp: child_put_child put_child_twice split: option.splits)



section \<open>A write succeeds exactly on an existing node\<close>

lemma subscript_empty_list:
  "subscript (JList []) k = Inl (case k of KStr s \<Rightarrow> TypeError | KInt i \<Rightarrow> IndexError)"
  by (cases k) auto

lemma fresh_fails:
  "fst (set_walk (JDict []) ks v) \<noteq> None \<and> fst (set_walk (JList []) ks v) \<noteq> None"
proof (induction ks rule: induct_list012)
  case 1
  then show ?case by simp
next
  case (2 k)
  then show ?case
    by (auto simp: set_leaf_def subscript_empty_list split: sum.splits)
next
  case (3 k k' ks)
  then show ?case
    by (auto split: sum.splits key.splits prod.splits)
qed

lemma set_walk_exists:
  "addr ks = Some a \<Longrightarrow> ks \<noteq> [] \<Longrightarrow> node_at d a = Some old \<Longrightarrow>
   set_walk d ks v = (None, put_at d a (stored old v))"
proof (induction d ks v arbitrary: a rule: set_walk.induct)
  case (1 cur v)
  then show ?case by simp
next
  case (2 cur k v)
  then show ?case
    by (auto simp: set_leaf_def stored_def subscript_child store_child
        split: sum.splits option.splits)
next
  case (3 cur k k' ks v)
  from "3.prems"(1) obtain key a' where k: "key_of k = Inr key"
    and a': "addr (k' # ks) = Some a'" and a: "a = key # a'"
    by (auto split: sum.splits)
  from "3.prems"(3) a obtain c where c: "child cur key = Some c" and n: "node_at c a' = Some old"
    by (auto split: option.splits)
  show ?case
  proof (cases "(cur, key)" rule: child.cases)
    case (1 kvs k0)
    with c have m: "map_of kvs key = Some c" by simp
    have "set_walk c (k' # ks) v = (None, put_at c a' (stored old v))"
      using "3.IH"(3)[OF k _ m a' _ n] 1 by simp
    with 1 k m a c show ?thesis by simp
  next
    case (2 xs i)
    with c have i: "i < length xs" and ci: "c = xs ! i" by (auto split: if_splits)
    have "set_walk (xs ! i) (k' # ks) v = (None, put_at (xs ! i) a' (stored old v))"
      using "3.IH"(1)[OF k _ _ i a' _] 2 n ci by simp
    with 2 k i a c ci show ?thesis by simp
  qed (use c in auto)
qed

lemma set_walk_success:
  "set_walk d ks v = (None, d') \<Longrightarrow>
   \<exists>a old. addr ks = Some a \<and> a \<noteq> [] \<and> node_at d a = Some old \<and> d' = put_at d a (stored old v)"
proof (induction d ks v arbitrary: d' rule: set_walk.induct)
  case (1 cur v)
  then show ?case by simp
next
  case (2 cur k v)
  then show ?case
    by (auto simp: set_leaf_def stored_def split: sum.splits dest!: store_Inr)
next
  case (3 cur k k' ks v)
  from "3.prems" obtain key where k: "key_of k = Inr key" by (auto split: sum.splits)
  show ?case
  proof (cases cur)
    case (JList xs)
    with "3.prems" k obtain i c' where key: "key = KInt i" and i: "i < length xs"
      and w: "set_walk (xs ! i) (k' # ks) v = (None, c')" and d': "d' = JList (xs[i := c'])"
      by (auto split: key.splits if_splits prod.splits)
    from "3.IH"(1)[OF k JList key i w] obtain a old where
      "addr (k' # ks) = Some a" "node_at (xs ! i) a = Some old" "c' = put_at (xs ! i) a (stored old v)"
      by blast
    with JList k key i d' show ?thesis by auto
  next
    case (JDict kvs)
    show ?thesis
    proof (cases "map_of kvs key")
      case None
      with "3.prems" k JDict
      have "fst (set_walk (if isdigit k' then JList [] else JDict []) (k' # ks) v) = None"
        by (auto split: prod.splits)
      with fresh_fails[of "k' # ks" v] show ?thesis by (auto split: if_splits)
    next
      case (Some c)
      with "3.prems" k JDict obtain c' where w: "set_walk c (k' # ks) v = (None, c')"
        and d': "d' = JDict (dict_set kvs key c')"
        by (auto split: prod.splits)
      from "3.IH"(3)[OF k JDict Some w] obtain a old where
        "addr (k' # ks) = Some a" "node_at c a = Some old" "c' = put_at c a (stored old v)"
        by blast
      with JDict k Some d' show ?thesis by auto
    qed
  qed (use "3.prems" k in auto)
qed

lemma addr_Nil: "addr ks = Some [] \<longleftrightarrow> ks = []"
  by (cases ks) (auto split: sum.splits)

lemma stored_stored: "stored (stored old v) v = stored old v"
  by (cases v; cases old) (auto simp: stored_def split: option.splits)

lemma stored_self: "stored v v = v"
  by (cases v) (auto simp: stored_def)

section \<open>Reading along a path\<close>

lemma get_walk_append:
  "get_walk d (ks1 @ ks2) = (case get_walk d ks1 of Inl e \<Rightarrow> Inl e | Inr n \<Rightarrow> get_walk n ks2)"
  by (induction ks1 arbitrary: d) (auto split: sum.splits)

lemma map_of_str_keys:
  "list_all (\<lambda>kv. is_str_key (fst kv)) kvs \<Longrightarrow> map_of kvs (KInt i) = None"
  by (induction kvs) auto

lemma key_of_digit_cases:
  "isdigit k \<Longrightarrow> key_of k = Inl ValueError \<or> (\<exists>i. key_of k = Inr (KInt i))"
  by (auto simp: key_of_def split: option.splits)

lemma unresolvable_fails:
  assumes "unresolvable n k"
  shows "\<exists>e. get_walk n (k # ks) = Inl e"
proof (cases "isdigit k")
  case True
  from key_of_digit_cases[OF True] show ?thesis
  proof
    assume "key_of k = Inl ValueError"
    then show ?thesis by simp
  next
    assume "\<exists>i. key_of k = Inr (KInt i)"
    then obtain i where i: "key_of k = Inr (KInt i)" ..
    with assms True show ?thesis
      by (cases n) (auto simp: unresolvable_def map_of_str_keys)
  qed
next
  case False
  then have "key_of k = Inr (KStr k)" by (simp add: key_of_def)
  with assms False show ?thesis
    by (cases n) (auto simp: unresolvable_def)
qed

section \<open>Integers as text\<close>

lemma of_char_digit_char: "d < 10 \<Longrightarrow> (of_char (digit_char d) :: nat) = 48 + d"
  by (simp add: digit_char_def)

lemma is_ascii_digit_digit_char: "d < 10 \<Longrightarrow> is_ascii_digit (digit_char d)"
  by (simp add: is_ascii_digit_def of_char_digit_char)

lemma digit_val_digit_char: "d < 10 \<Longrightarrow> digit_val (digit_char d) = d"
  by (simp add: digit_val_def of_char_digit_char)

lemma show_nat_digits: "list_all is_ascii_digit (show_nat n)"
proof (induction n rule: show_nat.induct)
  case (1 n)
  then show ?case
    by (subst show_nat.simps) (simp add: is_ascii_digit_digit_char)
qed

lemma show_nat_nonempty: "show_nat n \<noteq> []"
  by (subst show_nat.simps) simp

lemma nat_of_digits_snoc: "nat_of_digits (s @ [c]) = 10 * nat_of_digits s + digit_val c"
  by (simp add: nat_of_digits_def)

lemma nat_of_digits_show_nat: "nat_of_digits (show_nat n) = n"
proof (induction n rule: show_nat.induct)
  case (1 n)
  show ?case
  proof (cases "n < 10")
    case True
    then show ?thesis
      by (subst show_nat.simps) (simp add: nat_of_digits_def digit_val_digit_char)
  next
    case False
    with 1 show ?thesis
      by (subst show_nat.simps) (simp add: nat_of_digits_snoc digit_val_digit_char)
  qed
qed

lemma digit_not_space: "is_ascii_digit c \<Longrightarrow> \<not> is_space c"
  by (auto simp: is_ascii_digit_def is_space_def)

lemma dropWhile_hd: "s \<noteq> [] \<Longrightarrow> \<not> P (hd s) \<Longrightarrow> dropWhile P s = s"
  by (cases s) auto

lemma strip_digits: "list_all is_ascii_digit s \<Longrightarrow> strip s = s"
proof (cases "s = []")
  case True
  then show ?thesis by (simp add: strip_def)
next
  case False
  assume a: "list_all is_ascii_digit s"
  with False have "is_ascii_digit (hd s)" "is_ascii_digit (last s)"
    by (auto simp: list_all_iff)
  then have h: "\<not> is_space (hd s)" and l: "\<not> is_space (hd (rev s))"
    using False by (auto simp: digit_not_space hd_rev)
  from False h have "dropWhile is_space s = s" by (rule dropWhile_hd)
  moreover from False l have "dropWhile is_space (rev s) = rev s" by (intro dropWhile_hd) auto
  ultimately show ?thesis by (simp add: strip_def)
qed

lemma digit_group_digits: "list_all is_ascii_digit s \<Longrightarrow> digit_group p s = (p \<or> s \<noteq> [])"
  by (induction s arbitrary: p) auto

lemma digit_not_special:
  "is_ascii_digit c \<Longrightarrow> c \<noteq> CHR ''_'' \<and> c \<noteq> CHR ''-'' \<and> c \<noteq> CHR ''+''
     \<and> c \<noteq> CHR ''.'' \<and> c \<noteq> CHR ''['' \<and> c \<noteq> CHR '']''"
  by (auto simp: is_ascii_digit_def)

lemma py_int_digits:
  assumes "list_all is_ascii_digit s" "s \<noteq> []"
  shows "py_int s = Some (int (nat_of_digits s))"
proof -
  from assms obtain c cs where s: "s = c # cs" by (cases s) auto
  with assms have c: "is_ascii_digit c" by simp
  have f: "filter (\<lambda>c. c \<noteq> CHR ''_'') s = s"
    using assms(1) by (auto simp: list_all_iff filter_id_conv dest: digit_not_special)
  from assms have "read_digits s = Some (nat_of_digits s)"
    by (simp add: read_digits_def digit_group_digits f)
  with s c show ?thesis
    using strip_digits[OF assms(1)] digit_not_special[OF c] by (simp add: py_int_def)
qed

lemma isdigit_show_nat: "isdigit (show_nat n)"
  using show_nat_digits[of n] show_nat_nonempty[of n]
  by (auto simp: isdigit_def isdigit_char_def list_all_iff)

lemma key_of_show_nat: "key_of (show_nat n) = Inr (KInt n)"
  by (simp add: key_of_def isdigit_show_nat py_int_digits show_nat_digits show_nat_nonempty
      nat_of_digits_show_nat)

lemma show_nat_inj:
  assumes "show_nat m = show_nat n"
  shows "m = n"
proof -
  have "key_of (show_nat m) = key_of (show_nat n)" by (simp only: assms)
  then show ?thesis by (simp only: key_of_show_nat sum.inject key.inject)
qed

lemma show_nat_no_sep:
  "list_all (\<lambda>c. c \<noteq> CHR ''.'' \<and> c \<noteq> CHR ''['' \<and> c \<noteq> CHR '']'') (show_nat n)"
  using show_nat_digits[of n] by (auto simp: list_all_iff dest: digit_not_special)


section \<open>Splitting a path\<close>

lemma split_on_nonempty: "split_on c s \<noteq> []"
  by (induction s) (auto split: list.splits)

lemma split_on_none: "c \<notin> set w \<Longrightarrow> split_on c w = [w]"
  by (induction w) auto

lemma split_on_append_sep: "split_on c (xs @ c # ys) = split_on c xs @ split_on c ys"
proof (induction xs)
  case Nil
  then show ?case by simp
next
  case (Cons x xs)
  obtain p ps where s: "split_on c xs = p # ps"
    using split_on_nonempty[of c xs] by (cases "split_on c xs") auto
  with Cons show ?case by simp
qed

lemma split_on_append_none:
  assumes "c \<notin> set w"
  shows "split_on c (xs @ w) = butlast (split_on c xs) @ [last (split_on c xs) @ w]"
proof (induction xs)
  case Nil
  with assms show ?case by (simp add: split_on_none)
next
  case (Cons x xs)
  obtain p ps where s: "split_on c xs = p # ps"
    using split_on_nonempty[of c xs] by (cases "split_on c xs") auto
  with Cons show ?case by (cases ps) auto
qed


lemma raw_keys_bracket:
  assumes "CHR ''['' \<notin> set k" "CHR ''.'' \<notin> set k"
  shows "raw_keys (s @ CHR ''['' # k) = raw_keys s @ [k]"
proof -
  have "split_on CHR ''['' (s @ CHR ''['' # k) = split_on CHR ''['' s @ [k]"
    by (simp only: split_on_append_sep split_on_none[OF assms(1)])
  then show ?thesis
    by (simp add: raw_keys_def split_on_none[OF assms(2)])
qed

lemma raw_keys_dot:
  assumes "CHR ''['' \<notin> set k" "CHR ''.'' \<notin> set k"
  shows "raw_keys (s @ CHR ''.'' # k) = raw_keys s @ [k]"
proof -
  let ?S = "split_on CHR ''['' s"
  have S: "butlast ?S @ [last ?S] = ?S" by (simp add: split_on_nonempty)
  from assms(1) have "CHR ''['' \<notin> set (CHR ''.'' # k)" by simp
  then have "split_on CHR ''['' (s @ CHR ''.'' # k) = butlast ?S @ [last ?S @ CHR ''.'' # k]"
    by (rule split_on_append_none)
  then have "raw_keys (s @ CHR ''.'' # k)
      = concat (map (split_on CHR ''.'') (butlast ?S)) @ split_on CHR ''.'' (last ?S @ CHR ''.'' # k)"
    by (simp add: raw_keys_def)
  also have "split_on CHR ''.'' (last ?S @ CHR ''.'' # k) = split_on CHR ''.'' (last ?S) @ [k]"
    by (simp only: split_on_append_sep split_on_none[OF assms(2)])
  also have "concat (map (split_on CHR ''.'') (butlast ?S)) @ split_on CHR ''.'' (last ?S) @ [k]
      = concat (map (split_on CHR ''.'') (butlast ?S @ [last ?S])) @ [k]"
    by simp
  finally show ?thesis by (simp only: S raw_keys_def)
qed

lemma path_keys_raw: "path_keys p = filter (\<lambda>k. k \<noteq> []) (raw_keys (filter (\<lambda>c. c \<noteq> CHR '']'') p))"
  by (simp add: path_keys_def raw_keys_def)

lemma sep_free_set: "sep_free k \<Longrightarrow> CHR ''.'' \<notin> set k \<and> CHR ''['' \<notin> set k \<and> CHR '']'' \<notin> set k"
  by (auto simp: sep_free_def list_all_iff)

lemma sep_free_filter: "sep_free k \<Longrightarrow> filter (\<lambda>c. c \<noteq> CHR '']'') k = k"
  by (auto simp: sep_free_def list_all_iff filter_id_conv)

lemma path_keys_dot:
  assumes "sep_free k" "k \<noteq> []"
  shows "path_keys (p @ ''.'' @ k) = path_keys p @ [k]"
proof -
  from sep_free_set[OF assms(1)] have a: "CHR ''['' \<notin> set k" and b: "CHR ''.'' \<notin> set k"
    by simp_all
  have "filter (\<lambda>c. c \<noteq> CHR '']'') (p @ ''.'' @ k) = filter (\<lambda>c. c \<noteq> CHR '']'') p @ CHR ''.'' # k"
    by (simp add: sep_free_filter[OF assms(1)])
  then show ?thesis
    using assms(2) by (simp add: path_keys_raw raw_keys_dot[OF a b])
qed

lemma path_keys_index:
  assumes "sep_free k" "k \<noteq> []"
  shows "path_keys (p @ ''['' @ k @ '']'') = path_keys p @ [k]"
proof -
  from sep_free_set[OF assms(1)] have a: "CHR ''['' \<notin> set k" and b: "CHR ''.'' \<notin> set k"
    by simp_all
  have "filter (\<lambda>c. c \<noteq> CHR '']'') (p @ ''['' @ k @ '']'') = filter (\<lambda>c. c \<noteq> CHR '']'') p @ CHR ''['' # k"
    by (simp add: sep_free_filter[OF assms(1)])
  then show ?thesis
    using assms(2) by (simp add: path_keys_raw raw_keys_bracket[OF a b])
qed

lemma path_keys_single:
  assumes "sep_free k" "k \<noteq> []"
  shows "path_keys k = [k]"
proof -
  from sep_free_set[OF assms(1)] have a: "CHR ''['' \<notin> set k" and b: "CHR ''.'' \<notin> set k"
    by simp_all
  show ?thesis
    using assms(2)
    by (simp add: path_keys_raw raw_keys_def sep_free_filter[OF assms(1)] split_on_none[OF a] split_on_none[OF b])
qed

lemma path_keys_Nil: "path_keys [] = []"
  by (simp add: path_keys_def)

section \<open>Every flattened path leads back to its value\<close>

lemma set_dict_set: "set (dict_set d k v) \<subseteq> insert (k, v) (set d)"
  by (induction d) (auto split: if_splits)

lemma set_foldl_dict_set:
  "set (foldl (\<lambda>d (k, v). dict_set d k v) acc xs) \<subseteq> set acc \<union> set xs"
proof (induction xs arbitrary: acc)
  case Nil
  then show ?case by simp
next
  case (Cons x xs)
  obtain k v where x: "x = (k, v)" by (cases x)
  from Cons[of "dict_set acc k v"] set_dict_set[of acc k v] x show ?case by auto
qed

lemma set_py_dict: "set (py_dict xs) \<subseteq> set xs"
  using set_foldl_dict_set[of "[]" xs] by (simp add: py_dict_def)

lemma key_of_plain: "plain_key (KStr s) \<Longrightarrow> key_of s = Inr (KStr s)"
  by (simp add: plain_key_def key_of_def)

lemma new_key_plain:
  assumes "plain_key k" "is_str_key pk"
  shows "is_str_key (new_key pk ''.'' k)"
    and "path_keys (key_str (new_key pk ''.'' k)) = path_keys (key_str pk) @ [key_str k]"
proof -
  from assms obtain s P where k: "k = KStr s" and pk: "pk = KStr P"
    by (cases k; cases pk) (auto simp: plain_key_def)
  from assms(1) k have s: "sep_free s" "s \<noteq> []" by (auto simp: plain_key_def)
  show "is_str_key (new_key pk ''.'' k)" using k pk by (simp add: new_key_def)
  show "path_keys (key_str (new_key pk ''.'' k)) = path_keys (key_str pk) @ [key_str k]"
  proof (cases "P = []")
    case True
    with k pk show ?thesis
      by (simp add: new_key_def truthy_def key_str_def path_keys_single[OF s] path_keys_Nil)
  next
    case False
    with k pk path_keys_dot[OF s, of P] show ?thesis
      by (simp add: new_key_def truthy_def key_str_def)
  qed
qed

lemma idx_key_path:
  "is_str_key (idx_key nk i)"
  "path_keys (key_str (idx_key nk i)) = path_keys (key_str nk) @ [show_nat i]"
proof -
  have s: "sep_free (show_nat i)" using show_nat_no_sep[of i] by (simp add: sep_free_def)
  show "is_str_key (idx_key nk i)" by (simp add: idx_key_def)
  show "path_keys (key_str (idx_key nk i)) = path_keys (key_str nk) @ [show_nat i]"
    using path_keys_index[OF s show_nat_nonempty, of "key_str nk"]
    by (simp add: idx_key_def key_str_def)
qed

lemma node_at_dict_cons:
  assumes "k \<notin> set (map fst kvs)" "a \<noteq> []" "node_at (JDict kvs) a = Some x"
  shows "node_at (JDict ((k, v) # kvs)) a = Some x"
proof -
  from assms(2) obtain h t where a: "a = h # t" by (cases a) auto
  with assms(3) obtain c where "map_of kvs h = Some c" by (auto split: option.splits)
  then have "h \<in> set (map fst kvs)" by (auto dest: map_of_SomeD intro: rev_image_eqI)
  with assms(1) have "h \<noteq> k" by auto
  with assms(3) a show ?thesis by simp
qed


lemma flatten_resolves:
  "sep = ''.'' \<Longrightarrow> is_str_key pk \<Longrightarrow> plain_items kvs \<Longrightarrow>
     \<forall>e \<in> set (flatten_items kvs pk sep). \<exists>s rel a. fst e = KStr s
        \<and> path_keys s = path_keys (key_str pk) @ rel \<and> rel \<noteq> []
        \<and> addr rel = Some a \<and> node_at (JDict kvs) a = Some (snd e)"
  "sep = ''.'' \<Longrightarrow> is_str_key nk \<Longrightarrow> plain_elems xs \<Longrightarrow>
     \<forall>e \<in> set (flatten_elems xs i nk sep). \<exists>s j rel a. fst e = KStr s \<and> j < length xs
        \<and> path_keys s = path_keys (key_str nk) @ show_nat (i + j) # rel
        \<and> addr rel = Some a \<and> node_at (xs ! j) a = Some (snd e)"
proof (induction kvs pk sep and xs i nk sep rule: flatten_items_flatten_elems.induct)
  case (1 parent_key sep)
  then show ?case by simp
next
  case (2 k v kvs parent_key sep)
  note sep = \<open>sep = ''.''\<close>
  from "2.prems" have pk: "plain_key k" and fresh: "k \<notin> set (map fst kvs)"
    and rest: "plain_items kvs" by simp_all
  from pk obtain ks where k: "k = KStr ks" by (cases k) (auto simp: plain_key_def)
  let ?nk = "new_key parent_key sep k"
  have nk: "is_str_key ?nk"
    and nkp: "path_keys (key_str ?nk) = path_keys (key_str parent_key) @ [ks]"
    using new_key_plain[OF pk "2.prems"(2)] sep k by (simp_all add: key_str_def)
  have kk: "key_of ks = Inr (KStr ks)" using pk k by (simp add: key_of_plain)
  have scalar: "\<exists>s rel a. fst e = KStr s
        \<and> path_keys s = path_keys (key_str parent_key) @ rel \<and> rel \<noteq> []
        \<and> addr rel = Some a \<and> node_at (JDict ((k, v) # kvs)) a = Some (snd e)"
    if e: "e = (?nk, v)" for e
  proof -
    obtain s where s: "?nk = KStr s" using nk by (cases ?nk) auto
    have "path_keys s = path_keys (key_str parent_key) @ [ks]"
      using nkp s by (simp add: key_str_def)
    moreover have "addr [ks] = Some [KStr ks]" using kk by simp
    moreover have "node_at (JDict ((k, v) # kvs)) [KStr ks] = Some v" using k by simp
    ultimately show ?thesis using e s by force
  qed
  show ?case
  proof
    fix e
    assume "e \<in> set (flatten_items ((k, v) # kvs) parent_key sep)"
    then consider
      (head) "e \<in> set (case v of
          JDict sub \<Rightarrow> py_dict (flatten_items sub ?nk sep)
        | JList xs \<Rightarrow> flatten_elems xs 0 ?nk sep
        | _ \<Rightarrow> [(?nk, v)])"
      | (tail) "e \<in> set (flatten_items kvs parent_key sep)"
      by auto
    then show "\<exists>s rel a. fst e = KStr s
        \<and> path_keys s = path_keys (key_str parent_key) @ rel \<and> rel \<noteq> []
        \<and> addr rel = Some a \<and> node_at (JDict ((k, v) # kvs)) a = Some (snd e)"
    proof cases
      case tail
      with "2.IH"(3)[OF sep "2.prems"(2) rest] obtain s rel a where
        "fst e = KStr s" "path_keys s = path_keys (key_str parent_key) @ rel" "rel \<noteq> []"
        "addr rel = Some a" "node_at (JDict kvs) a = Some (snd e)"
        by blast
      moreover from this have "a \<noteq> []" by (auto simp: addr_Nil)
      ultimately show ?thesis
        using node_at_dict_cons[OF fresh] by blast
    next
      case head
      show ?thesis
      proof (cases v)
        case (JDict sub)
        with "2.prems" have ps: "plain_items sub" by simp
        from head JDict have "e \<in> set (flatten_items sub ?nk sep)"
          using set_py_dict by auto
        with "2.IH"(2)[OF JDict sep nk ps] obtain s rel a where
          e: "fst e = KStr s" "path_keys s = path_keys (key_str ?nk) @ rel"
          "addr rel = Some a" "node_at (JDict sub) a = Some (snd e)"
          by blast
        have "path_keys s = path_keys (key_str parent_key) @ (ks # rel)"
          using e(2) nkp by simp
        moreover have "addr (ks # rel) = Some (KStr ks # a)"
          using e(3) kk by simp
        moreover have "node_at (JDict ((k, v) # kvs)) (KStr ks # a) = Some (snd e)"
          using e(4) k JDict by simp
        ultimately show ?thesis using e(1) by blast
      next
        case (JList xs)
        with "2.prems" have ps: "plain_elems xs" by simp
        from head JList have "e \<in> set (flatten_elems xs 0 ?nk sep)" by simp
        with "2.IH"(1)[OF JList sep nk ps] obtain s j rel a where
          e: "fst e = KStr s" "j < length xs"
          "path_keys s = path_keys (key_str ?nk) @ show_nat (0 + j) # rel"
          "addr rel = Some a" "node_at (xs ! j) a = Some (snd e)"
          by blast
        have "path_keys s = path_keys (key_str parent_key) @ (ks # show_nat j # rel)"
          using e(3) nkp by simp
        moreover have "addr (ks # show_nat j # rel) = Some (KStr ks # KInt j # a)"
          using e(4) kk by (simp add: key_of_show_nat)
        moreover have "node_at (JDict ((k, v) # kvs)) (KStr ks # KInt j # a) = Some (snd e)"
          using e(2,5) k JList by simp
        ultimately show ?thesis using e(1) by blast
      next
        case JNull
        with head have "e = (?nk, v)" by simp
        then show ?thesis by (rule scalar)
      next
        case (JBool b)
        with head have "e = (?nk, v)" by simp
        then show ?thesis by (rule scalar)
      next
        case (JInt n)
        with head have "e = (?nk, v)" by simp
        then show ?thesis by (rule scalar)
      next
        case (JFloat f)
        with head have "e = (?nk, v)" by simp
        then show ?thesis by (rule scalar)
      next
        case (JStr t)
        with head have "e = (?nk, v)" by simp
        then show ?thesis by (rule scalar)
      qed
    qed
  qed
next
  case (3 i nk sep)
  then show ?case by simp
next
  case (4 x xs i nk sep)
  note sep = \<open>sep = ''.''\<close>
  from "4.prems" have rest: "plain_elems xs" by simp
  let ?ik = "idx_key nk i"
  note ik = idx_key_path[of nk i]
  show ?case
  proof
    fix e
    assume "e \<in> set (flatten_elems (x # xs) i nk sep)"
    then consider
      (head) "e \<in> set (case x of
          JDict sub \<Rightarrow> py_dict (flatten_items sub ?ik sep)
        | _ \<Rightarrow> [(?ik, x)])"
      | (tail) "e \<in> set (flatten_elems xs (Suc i) nk sep)"
      by auto
    then show "\<exists>s j rel a. fst e = KStr s \<and> j < length (x # xs)
        \<and> path_keys s = path_keys (key_str nk) @ show_nat (i + j) # rel
        \<and> addr rel = Some a \<and> node_at ((x # xs) ! j) a = Some (snd e)"
    proof cases
      case tail
      with "4.IH"(2)[OF sep "4.prems"(2) rest] obtain s j rel a where
        e: "fst e = KStr s" "j < length xs"
        "path_keys s = path_keys (key_str nk) @ show_nat (Suc i + j) # rel"
        "addr rel = Some a" "node_at (xs ! j) a = Some (snd e)"
        by blast
      have "Suc j < length (x # xs)" using e(2) by simp
      moreover have "path_keys s = path_keys (key_str nk) @ show_nat (i + Suc j) # rel"
        using e(3) by simp
      moreover have "node_at ((x # xs) ! Suc j) a = Some (snd e)" using e(5) by simp
      ultimately show ?thesis using e(1,4) by blast
    next
      case head
      show ?thesis
      proof (cases "\<exists>sub. x = JDict sub")
        case True
        then obtain sub where x: "x = JDict sub" ..
        with "4.prems" have ps: "plain_items sub" by simp
        from head x have "e \<in> set (flatten_items sub ?ik sep)"
          using set_py_dict by auto
        with "4.IH"(1)[OF x sep ik(1) ps] obtain s rel a where
          e: "fst e = KStr s" "path_keys s = path_keys (key_str ?ik) @ rel"
          "addr rel = Some a" "node_at (JDict sub) a = Some (snd e)"
          by blast
        have "path_keys s = path_keys (key_str nk) @ show_nat (i + 0) # rel"
          using e(2) ik(2) by simp
        moreover have "node_at ((x # xs) ! 0) a = Some (snd e)" using e(4) x by simp
        ultimately show ?thesis using e(1,3) by blast
      next
        case False
        with head have e: "e = (?ik, x)" by (cases x) auto
        obtain s where s: "?ik = KStr s" by (simp add: idx_key_def)
        have "path_keys s = path_keys (key_str nk) @ show_nat (i + 0) # []"
          using ik(2) s by (simp add: key_str_def)
        moreover have "addr [] = Some []" by simp
        moreover have "node_at ((x # xs) ! 0) [] = Some (snd e)" using e by simp
        moreover have "(0::nat) < length (x # xs)" by simp
        ultimately show ?thesis using e s by (metis fst_conv)
      qed
    qed
  qed
qed


lemma apply_pairs_fixed:
  "\<forall>e \<in> set items. \<exists>s. fst e = KStr s \<and> set_nested_value d s (snd e) = (None, d) \<Longrightarrow>
   apply_pairs d items = Inr d"
proof (induction items)
  case Nil
  then show ?case by simp
next
  case (Cons e items)
  obtain p v where e: "e = (p, v)" by (cases e)
  with Cons.prems obtain s where "p = KStr s" "set_nested_value d s v = (None, d)" by auto
  with Cons e show ?case by simp
qed


section \<open>Distinct paths and the size of the flat view\<close>

lemma dict_set_fresh: "k \<notin> set (map fst d) \<Longrightarrow> dict_set d k v = d @ [(k, v)]"
  by (induction d) auto

lemma foldl_dict_set_distinct:
  "distinct (map fst (acc @ xs)) \<Longrightarrow> foldl (\<lambda>d (k, v). dict_set d k v) acc xs = acc @ xs"
proof (induction xs arbitrary: acc)
  case Nil
  then show ?case by simp
next
  case (Cons x xs)
  obtain k v where x: "x = (k, v)" by (cases x)
  from Cons.prems x have "k \<notin> set (map fst acc)" by auto
  then have "dict_set acc k v = acc @ [(k, v)]" by (rule dict_set_fresh)
  moreover from Cons.prems x have "distinct (map fst ((acc @ [(k, v)]) @ xs))" by simp
  ultimately show ?case using Cons.IH[of "acc @ [(k, v)]"] x by simp
qed

lemma py_dict_distinct: "distinct (map fst xs) \<Longrightarrow> py_dict xs = xs"
  using foldl_dict_set_distinct[of "[]" xs] by (simp add: py_dict_def)

lemma distinct_map_fst:
  "distinct (map (\<lambda>e. f (fst e)) xs) \<Longrightarrow> distinct (map fst xs)"
  by (induction xs) (auto intro: rev_image_eqI)

lemma raw_keys_single:
  "CHR ''['' \<notin> set k \<Longrightarrow> CHR ''.'' \<notin> set k \<Longrightarrow> raw_keys k = [k]"
  by (simp add: raw_keys_def split_on_none)

lemma new_key_cover:
  assumes "cover_key k" "is_str_key pk" "key_str pk = [] \<longrightarrow> k \<noteq> KStr []"
  shows "is_str_key (new_key pk ''.'' k)"
    and "key_str (new_key pk ''.'' k) \<noteq> []"
    and "raw_keys (key_str (new_key pk ''.'' k)) = path_base pk @ [key_str k]"
proof -
  from assms(1,2) obtain s P where k: "k = KStr s" and pk: "pk = KStr P"
    by (cases k; cases pk) (auto simp: cover_key_def)
  from assms(1) k have s: "CHR ''['' \<notin> set s" "CHR ''.'' \<notin> set s"
    by (auto simp: cover_key_def)
  show "is_str_key (new_key pk ''.'' k)" using k pk by (simp add: new_key_def)
  show "key_str (new_key pk ''.'' k) \<noteq> []"
    using k pk assms(3) by (simp add: new_key_def truthy_def key_str_def)
  show "raw_keys (key_str (new_key pk ''.'' k)) = path_base pk @ [key_str k]"
  proof (cases "P = []")
    case True
    with k pk show ?thesis
      by (simp add: new_key_def truthy_def key_str_def path_base_def raw_keys_single[OF s])
  next
    case False
    with k pk raw_keys_dot[OF s, of P] show ?thesis
      by (simp add: new_key_def truthy_def key_str_def path_base_def)
  qed
qed

lemma idx_key_raw:
  "is_str_key (idx_key nk i)"
  "key_str (idx_key nk i) \<noteq> []"
  "raw_keys (key_str (idx_key nk i)) = raw_keys (key_str nk) @ [show_nat i @ '']'']"
proof -
  have "CHR ''['' \<notin> set (show_nat i @ '']'')" "CHR ''.'' \<notin> set (show_nat i @ '']'')"
    using show_nat_no_sep[of i] by (auto simp: list_all_iff)
  from raw_keys_bracket[OF this, of "key_str nk"]
  show "raw_keys (key_str (idx_key nk i)) = raw_keys (key_str nk) @ [show_nat i @ '']'']"
    by (simp add: idx_key_def key_str_def)
  show "is_str_key (idx_key nk i)" by (simp add: idx_key_def)
  show "key_str (idx_key nk i) \<noteq> []" by (simp add: idx_key_def key_str_def)
qed

lemma path_base_nonempty: "key_str pk \<noteq> [] \<Longrightarrow> path_base pk = raw_keys (key_str pk)"
  by (simp add: path_base_def)

lemma flatten_heads:
  "sep = ''.'' \<Longrightarrow> is_str_key pk \<Longrightarrow> cover_items kvs \<Longrightarrow>
   (key_str pk = [] \<longrightarrow> (\<forall>kv \<in> set kvs. fst kv \<noteq> KStr [])) \<Longrightarrow>
     \<forall>e \<in> set (flatten_items kvs pk sep). \<exists>k rel. k \<in> set (map fst kvs)
        \<and> raw_keys (key_str (fst e)) = path_base pk @ key_str k # rel"
  "sep = ''.'' \<Longrightarrow> is_str_key nk \<Longrightarrow> key_str nk \<noteq> [] \<Longrightarrow> cover_elems xs \<Longrightarrow>
     \<forall>e \<in> set (flatten_elems xs i nk sep). \<exists>j rel. j < length xs
        \<and> raw_keys (key_str (fst e)) = raw_keys (key_str nk) @ (show_nat (i + j) @ '']'') # rel"
proof (induction kvs pk sep and xs i nk sep rule: flatten_items_flatten_elems.induct)
  case (1 parent_key sep)
  then show ?case by simp
next
  case (2 k v kvs parent_key sep)
  note sep = \<open>sep = ''.''\<close>
  from "2.prems" have ck: "cover_key k" and rest: "cover_items kvs" by simp_all
  from "2.prems"(4) have ne: "key_str parent_key = [] \<longrightarrow> k \<noteq> KStr []"
    and ne': "key_str parent_key = [] \<longrightarrow> (\<forall>kv \<in> set kvs. fst kv \<noteq> KStr [])" by simp_all
  let ?nk = "new_key parent_key sep k"
  have nk: "is_str_key ?nk" and nkn: "key_str ?nk \<noteq> []"
    and nkp: "raw_keys (key_str ?nk) = path_base parent_key @ [key_str k]"
    using new_key_cover[OF ck "2.prems"(2) ne] sep by simp_all
  show ?case
  proof
    fix e
    assume "e \<in> set (flatten_items ((k, v) # kvs) parent_key sep)"
    then consider
      (head) "e \<in> set (case v of
          JDict sub \<Rightarrow> py_dict (flatten_items sub ?nk sep)
        | JList xs \<Rightarrow> flatten_elems xs 0 ?nk sep
        | _ \<Rightarrow> [(?nk, v)])"
      | (tail) "e \<in> set (flatten_items kvs parent_key sep)"
      by auto
    then show "\<exists>k' rel. k' \<in> set (map fst ((k, v) # kvs))
        \<and> raw_keys (key_str (fst e)) = path_base parent_key @ key_str k' # rel"
    proof cases
      case tail
      with "2.IH"(3)[OF sep "2.prems"(2) rest ne'] obtain k' rel where
        "k' \<in> set (map fst kvs)"
        "raw_keys (key_str (fst e)) = path_base parent_key @ key_str k' # rel"
        by blast
      moreover from this(1) have "k' \<in> set (map fst ((k, v) # kvs))" by simp
      ultimately show ?thesis by blast
    next
      case head
      have "\<exists>rel. raw_keys (key_str (fst e)) = path_base parent_key @ key_str k # rel"
      proof (cases v)
        case (JDict sub)
        with "2.prems" have ps: "cover_items sub" by simp
        from head JDict have "e \<in> set (flatten_items sub ?nk sep)"
          using set_py_dict by auto
        with "2.IH"(2)[OF JDict sep nk ps] nkn obtain k2 rel where
          "raw_keys (key_str (fst e)) = path_base ?nk @ key_str k2 # rel"
          by blast
        with nkp nkn show ?thesis by (simp add: path_base_nonempty)
      next
        case (JList xs)
        with "2.prems" have ps: "cover_elems xs" by simp
        from head JList have "e \<in> set (flatten_elems xs 0 ?nk sep)" by simp
        with "2.IH"(1)[OF JList sep nk nkn ps] obtain j rel where
          "raw_keys (key_str (fst e)) = raw_keys (key_str ?nk) @ (show_nat (0 + j) @ '']'') # rel"
          by blast
        with nkp show ?thesis by simp
      qed (use head nkp in auto)
      moreover have "k \<in> set (map fst ((k, v) # kvs))" by simp
      ultimately show ?thesis by blast
    qed
  qed
next
  case (3 i nk sep)
  then show ?case by simp
next
  case (4 x xs i nk sep)
  note sep = \<open>sep = ''.''\<close>
  from "4.prems" have rest: "cover_elems xs" by simp
  let ?ik = "idx_key nk i"
  note ik = idx_key_raw[of nk i]
  show ?case
  proof
    fix e
    assume "e \<in> set (flatten_elems (x # xs) i nk sep)"
    then consider
      (head) "e \<in> set (case x of
          JDict sub \<Rightarrow> py_dict (flatten_items sub ?ik sep)
        | _ \<Rightarrow> [(?ik, x)])"
      | (tail) "e \<in> set (flatten_elems xs (Suc i) nk sep)"
      by auto
    then show "\<exists>j rel. j < length (x # xs)
        \<and> raw_keys (key_str (fst e)) = raw_keys (key_str nk) @ (show_nat (i + j) @ '']'') # rel"
    proof cases
      case tail
      with "4.IH"(2)[OF sep "4.prems"(2,3) rest] obtain j rel where
        e: "j < length xs"
        "raw_keys (key_str (fst e)) = raw_keys (key_str nk) @ (show_nat (Suc i + j) @ '']'') # rel"
        by blast
      have "Suc j < length (x # xs)" using e(1) by simp
      moreover have "raw_keys (key_str (fst e))
          = raw_keys (key_str nk) @ (show_nat (i + Suc j) @ '']'') # rel"
        using e(2) by simp
      ultimately show ?thesis by blast
    next
      case head
      have "\<exists>rel. raw_keys (key_str (fst e)) = raw_keys (key_str nk) @ (show_nat i @ '']'') # rel"
      proof (cases "\<exists>sub. x = JDict sub")
        case True
        then obtain sub where x: "x = JDict sub" ..
        with "4.prems" have ps: "cover_items sub" by simp
        from head x have "e \<in> set (flatten_items sub ?ik sep)"
          using set_py_dict by auto
        with "4.IH"(1)[OF x sep ik(1) ps] ik(2) obtain k2 rel where
          "raw_keys (key_str (fst e)) = path_base ?ik @ key_str k2 # rel"
          by blast
        with ik(2,3) show ?thesis by (simp add: path_base_nonempty)
      next
        case False
        with head have "e = (?ik, x)" by (cases x) auto
        with ik(3) show ?thesis by simp
      qed
      then obtain rel where
        "raw_keys (key_str (fst e)) = raw_keys (key_str nk) @ (show_nat (i + 0) @ '']'') # rel"
        by auto
      moreover have "(0::nat) < length (x # xs)" by simp
      ultimately show ?thesis by blast
    qed
  qed
qed

lemma cover_items_keys: "cover_items kvs \<Longrightarrow> k \<in> set (map fst kvs) \<Longrightarrow> cover_key k"
proof (induction kvs)
  case Nil
  then show ?case by simp
next
  case (Cons kv kvs)
  obtain k' v where kv: "kv = (k', v)" by (cases kv)
  with Cons.prems have "cover_key k'" "cover_items kvs" "k = k' \<or> k \<in> set (map fst kvs)"
    by simp_all
  with Cons.IH show ?case by blast
qed

lemma cover_key_str: "cover_key k \<Longrightarrow> k = KStr (key_str k)"
  by (cases k) (auto simp: cover_key_def key_str_def)

lemma flatten_cover_distinct:
  "sep = ''.'' \<Longrightarrow> is_str_key pk \<Longrightarrow> cover_items kvs \<Longrightarrow>
   (key_str pk = [] \<longrightarrow> (\<forall>kv \<in> set kvs. fst kv \<noteq> KStr [])) \<Longrightarrow>
     distinct (map (\<lambda>e. raw_keys (key_str (fst e))) (flatten_items kvs pk sep))"
  "sep = ''.'' \<Longrightarrow> is_str_key nk \<Longrightarrow> key_str nk \<noteq> [] \<Longrightarrow> cover_elems xs \<Longrightarrow>
     distinct (map (\<lambda>e. raw_keys (key_str (fst e))) (flatten_elems xs i nk sep))"
proof (induction kvs pk sep and xs i nk sep rule: flatten_items_flatten_elems.induct)
  case (1 parent_key sep)
  then show ?case by simp
next
  case (2 k v kvs parent_key sep)
  note sep = \<open>sep = ''.''\<close>
  let ?f = "\<lambda>e. raw_keys (key_str (fst e))"
  let ?nk = "new_key parent_key sep k"
  let ?A = "flatten_items [(k, v)] parent_key sep"
  let ?B = "flatten_items kvs parent_key sep"
  from "2.prems" have ck: "cover_key k" and fresh: "k \<notin> set (map fst kvs)"
    and rest: "cover_items kvs" and one: "cover_items [(k, v)]" by simp_all
  from "2.prems"(4) have ne: "key_str parent_key = [] \<longrightarrow> k \<noteq> KStr []"
    and ne': "key_str parent_key = [] \<longrightarrow> (\<forall>kv \<in> set kvs. fst kv \<noteq> KStr [])"
    and ne1: "key_str parent_key = [] \<longrightarrow> (\<forall>kv \<in> set [(k, v)]. fst kv \<noteq> KStr [])"
    by simp_all
  have nk: "is_str_key ?nk" and nkn: "key_str ?nk \<noteq> []"
    using new_key_cover(1,2)[OF ck "2.prems"(2) ne] sep by simp_all
  have split: "flatten_items ((k, v) # kvs) parent_key sep = ?A @ ?B" by simp
  have dB: "distinct (map ?f ?B)" by (rule "2.IH"(3)[OF sep "2.prems"(2) rest ne'])
  have dA: "distinct (map ?f ?A)"
  proof (cases v)
    case (JDict sub)
    with one have ps: "cover_items sub" by simp
    have d: "distinct (map ?f (flatten_items sub ?nk sep))"
      using "2.IH"(2)[OF JDict sep nk ps] nkn by simp
    then have "py_dict (flatten_items sub ?nk sep) = flatten_items sub ?nk sep"
      by (intro py_dict_distinct distinct_map_fst)
    with d JDict show ?thesis by simp
  next
    case (JList xs)
    with one have ps: "cover_elems xs" by simp
    from "2.IH"(1)[OF JList sep nk nkn ps] JList show ?thesis by simp
  qed simp_all
  have "?f a \<noteq> ?f b" if a: "a \<in> set ?A" and b: "b \<in> set ?B" for a b
  proof -
    from a have a': "a \<in> set (flatten_items [(k, v)] parent_key ''.'')" unfolding sep .
    from b have b': "b \<in> set (flatten_items kvs parent_key ''.'')" unfolding sep .
    from flatten_heads(1)[OF refl "2.prems"(2) one ne1] a' obtain k0 rel where
      "k0 \<in> set (map fst [(k, v)])" and fa0: "?f a = path_base parent_key @ key_str k0 # rel"
      by blast
    then have fa: "?f a = path_base parent_key @ key_str k # rel" by simp
    from flatten_heads(1)[OF refl "2.prems"(2) rest ne'] b' obtain k' rel' where
      kb: "k' \<in> set (map fst kvs)" and fb: "?f b = path_base parent_key @ key_str k' # rel'"
      by blast
    from kb fresh have "k' \<noteq> k" by auto
    moreover from cover_items_keys[OF rest kb] have "k' = KStr (key_str k')" by (rule cover_key_str)
    moreover from ck have "k = KStr (key_str k)" by (rule cover_key_str)
    ultimately have "key_str k' \<noteq> key_str k" by metis
    with fa fb show ?thesis by simp
  qed
  then have "set (map ?f ?A) \<inter> set (map ?f ?B) = {}" by auto
  with dA dB show ?case unfolding split by (simp only: map_append distinct_append simp_thms)
next
  case (3 i nk sep)
  then show ?case by simp
next
  case (4 x xs i nk sep)
  note sep = \<open>sep = ''.''\<close>
  let ?f = "\<lambda>e. raw_keys (key_str (fst e))"
  let ?ik = "idx_key nk i"
  let ?A = "flatten_elems [x] i nk sep"
  let ?B = "flatten_elems xs (Suc i) nk sep"
  from "4.prems" have rest: "cover_elems xs" and one: "cover_elems [x]" by simp_all
  have split: "flatten_elems (x # xs) i nk sep = ?A @ ?B" by simp
  have dB: "distinct (map ?f ?B)" by (rule "4.IH"(2)[OF sep "4.prems"(2,3) rest])
  have dA: "distinct (map ?f ?A)"
  proof (cases x)
    case (JDict sub)
    with one have ps: "cover_items sub" by simp
    have d: "distinct (map ?f (flatten_items sub ?ik sep))"
      using "4.IH"(1)[OF JDict sep idx_key_raw(1) ps] idx_key_raw(2)[of nk i] by simp
    then have "py_dict (flatten_items sub ?ik sep) = flatten_items sub ?ik sep"
      by (intro py_dict_distinct distinct_map_fst)
    with d JDict show ?thesis by simp
  qed simp_all
  have "?f a \<noteq> ?f b" if a: "a \<in> set ?A" and b: "b \<in> set ?B" for a b
  proof -
    from a have a': "a \<in> set (flatten_elems [x] i nk ''.'')" unfolding sep .
    from b have b': "b \<in> set (flatten_elems xs (Suc i) nk ''.'')" unfolding sep .
    from flatten_heads(2)[OF refl "4.prems"(2,3) one] a' obtain j0 rel where
      "j0 < length [x]"
      and fa0: "?f a = raw_keys (key_str nk) @ (show_nat (i + j0) @ '']'') # rel"
      by blast
    then have fa: "?f a = raw_keys (key_str nk) @ (show_nat i @ '']'') # rel" by simp
    from flatten_heads(2)[OF refl "4.prems"(2,3) rest] b' obtain j rel' where
      fb: "?f b = raw_keys (key_str nk) @ (show_nat (Suc i + j) @ '']'') # rel'"
      by blast
    have "show_nat i \<noteq> show_nat (Suc i + j)" using show_nat_inj[of i "Suc i + j"] by auto
    with fa fb show ?thesis by simp
  qed
  then have "set (map ?f ?A) \<inter> set (map ?f ?B) = {}" by auto
  with dA dB show ?case unfolding split by (simp only: map_append distinct_append simp_thms)
qed

lemma flatten_cover_length:
  "sep = ''.'' \<Longrightarrow> is_str_key pk \<Longrightarrow> cover_items kvs \<Longrightarrow>
   (key_str pk = [] \<longrightarrow> (\<forall>kv \<in> set kvs. fst kv \<noteq> KStr [])) \<Longrightarrow>
     length (flatten_items kvs pk sep) = count_leaves_items kvs"
  "sep = ''.'' \<Longrightarrow> is_str_key nk \<Longrightarrow> key_str nk \<noteq> [] \<Longrightarrow> cover_elems xs \<Longrightarrow>
     length (flatten_elems xs i nk sep) = count_leaves_elems xs"
proof (induction kvs pk sep and xs i nk sep rule: flatten_items_flatten_elems.induct)
  case (1 parent_key sep)
  then show ?case by simp
next
  case (2 k v kvs parent_key sep)
  note sep = \<open>sep = ''.''\<close>
  let ?nk = "new_key parent_key sep k"
  from "2.prems" have ck: "cover_key k" and rest: "cover_items kvs" by simp_all
  from "2.prems"(4) have ne: "key_str parent_key = [] \<longrightarrow> k \<noteq> KStr []"
    and ne': "key_str parent_key = [] \<longrightarrow> (\<forall>kv \<in> set kvs. fst kv \<noteq> KStr [])"
    by simp_all
  have nk: "is_str_key ?nk" and nkn: "key_str ?nk \<noteq> []"
    using new_key_cover(1,2)[OF ck "2.prems"(2) ne] sep by simp_all
  have tl: "length (flatten_items kvs parent_key sep) = count_leaves_items kvs"
    by (rule "2.IH"(3)[OF sep "2.prems"(2) rest ne'])
  show ?case
  proof (cases v)
    case (JDict sub)
    with "2.prems" have ps: "cover_items sub" by simp
    have "distinct (map (\<lambda>e. raw_keys (key_str (fst e))) (flatten_items sub ?nk sep))"
      using flatten_cover_distinct(1)[OF sep nk ps] nkn by simp
    then have "py_dict (flatten_items sub ?nk sep) = flatten_items sub ?nk sep"
      by (intro py_dict_distinct distinct_map_fst)
    moreover have "length (flatten_items sub ?nk sep) = count_leaves_items sub"
      using "2.IH"(2)[OF JDict sep nk ps] nkn by simp
    ultimately show ?thesis using tl JDict by simp
  next
    case (JList xs)
    with "2.prems" have ps: "cover_elems xs" by simp
    from "2.IH"(1)[OF JList sep nk nkn ps] tl JList show ?thesis by simp
  qed (use tl in simp_all)
next
  case (3 i nk sep)
  then show ?case by simp
next
  case (4 x xs i nk sep)
  note sep = \<open>sep = ''.''\<close>
  let ?ik = "idx_key nk i"
  from "4.prems" have rest: "cover_elems xs" by simp
  have tl: "length (flatten_elems xs (Suc i) nk sep) = count_leaves_elems xs"
    by (rule "4.IH"(2)[OF sep "4.prems"(2,3) rest])
  show ?case
  proof (cases x)
    case (JDict sub)
    with "4.prems" have ps: "cover_items sub" by simp
    have "distinct (map (\<lambda>e. raw_keys (key_str (fst e))) (flatten_items sub ?ik sep))"
      using flatten_cover_distinct(1)[OF sep idx_key_raw(1) ps] idx_key_raw(2)[of nk i] by simp
    then have "py_dict (flatten_items sub ?ik sep) = flatten_items sub ?ik sep"
      by (intro py_dict_distinct distinct_map_fst)
    moreover have "length (flatten_items sub ?ik sep) = count_leaves_items sub"
      using "4.IH"(1)[OF JDict sep idx_key_raw(1) ps] idx_key_raw(2)[of nk i] by simp
    ultimately show ?thesis using tl JDict by simp
  next
    case (JList ys)
    with "4.prems" show ?thesis by simp
  qed (use tl in simp_all)
qed

section \<open>Claims about writing and reading\<close>

text \<open>
  C2. Writing to a leaf that does not exist yet: on the empty document,
  \<^verbatim>\<open>set_nested_value(doc, "data.tags.team", "eng")\<close> creates the two intermediate objects
  and then raises KeyError, because the final step reads \<^verbatim>\<open>current[last_key]\<close> before
  it writes; the document is left as \<^verbatim>\<open>{"data": {"tags": {}}}\<close> and the text is not
  stored.
\<close>

theorem set_nested_value_absent_leaf:
  "set_nested_value (JDict []) ''data.tags.team'' (JStr ''eng'')
     = (Some KeyError, JDict [(KStr ''data'', JDict [(KStr ''tags'', JDict [])])])"
  by code_simp

text \<open>
  C3, as it holds. When the node at a non-empty path holds a string, the raw text is
  stored verbatim. When it holds a boolean it is treated as the numeric leaves are
  (\<^verbatim>\<open>bool\<close> is a subclass of \<^verbatim>\<open>int\<close>): the value stored is the coerced one, which is
  the raw text only if it does not parse.
\<close>

theorem set_nested_value_text_or_bool_leaf:
  assumes "path_addr path = Some a" and "a \<noteq> []" and "node_at d a = Some old"
    and "is_text old \<or> is_bool old"
  shows "fst (set_nested_value d path (JStr t)) = None
    \<and> node_at (snd (set_nested_value d path (JStr t))) a
        = Some (if is_text old then JStr t else coerce (JStr t))"
proof -
  from assms(1,2) have ks: "path_keys path \<noteq> []"
    by (auto simp: path_addr_def)
  from assms(4) have st: "stored old (JStr t) = (if is_text old then JStr t else coerce (JStr t))"
    by (cases old) (auto simp: stored_def)
  from set_walk_exists[OF assms(1)[unfolded path_addr_def] ks assms(3)]
  have "set_nested_value d path (JStr t) = (None, put_at d a (stored old (JStr t)))"
    by (simp add: set_nested_value_def)
  with st node_at_put_at[OF assms(3)] show ?thesis by simp
qed

theorem set_nested_value_text_or_bool_leaf_witness:
  "path_addr ''flag'' = Some [KStr ''flag''] \<and> [KStr ''flag''] \<noteq> []
   \<and> node_at (JDict [(KStr ''flag'', JBool True)]) [KStr ''flag''] = Some (JBool True)
   \<and> (is_text (JBool True) \<or> is_bool (JBool True))
   \<and> fst (set_nested_value (JDict [(KStr ''flag'', JBool True)]) ''flag'' (JStr ''yes'')) = None
   \<and> node_at (snd (set_nested_value (JDict [(KStr ''flag'', JBool True)]) ''flag'' (JStr ''yes'')))
        [KStr ''flag''] = Some (JStr ''yes'')"
proof -
  have p: "path_addr ''flag'' = Some [KStr ''flag'']" by code_simp
  have n: "node_at (JDict [(KStr ''flag'', JBool True)]) [KStr ''flag''] = Some (JBool True)"
    by simp
  have c: "coerce (JStr ''yes'') = JStr ''yes''" by code_simp
  from set_nested_value_text_or_bool_leaf[OF p _ n, of "''yes''"] p n c show ?thesis
    by simp
qed

text \<open>
  C3 as stated fails on a boolean leaf: writing the text \<^verbatim>\<open>"1"\<close> over \<^verbatim>\<open>True\<close> parses
  it and stores the integer 1, not the text.
\<close>

theorem set_nested_value_bool_leaf_parsed:
  "set_nested_value (JDict [(KStr ''active'', JBool True)]) ''active'' (JStr ''1'')
     = (None, JDict [(KStr ''active'', JInt 1)])"
  by code_simp

text \<open>
  C4. When the node at a non-empty path holds a number, the raw text is parsed as a float
  if it contains a dot and as an integer otherwise, the call raises nothing, and a text that
  does not parse is stored unchanged. On the spec's document, \<^verbatim>\<open>"3.5"\<close> stores the float
  3.5 and \<^verbatim>\<open>"abc"\<close> stores the text.
\<close>

theorem set_nested_value_numeric_leaf:
  "(path_addr path = Some a \<and> a \<noteq> [] \<and> node_at d a = Some old \<and> is_number old \<longrightarrow>
      fst (set_nested_value d path (JStr t)) = None
      \<and> node_at (snd (set_nested_value d path (JStr t))) a
          = Some (if CHR ''.'' \<in> set t
                  then (case py_float t of Some x \<Rightarrow> JFloat x | None \<Rightarrow> JStr t)
                  else (case py_int t of Some i \<Rightarrow> JInt i | None \<Rightarrow> JStr t)))
   \<and> set_nested_value (meters_doc (JInt 10)) ''data.meters[0].quantity'' (JStr ''3.5'')
       = (None, meters_doc (JFloat (7 / 2)))
   \<and> set_nested_value (meters_doc (JInt 10)) ''data.meters[0].quantity'' (JStr ''abc'')
       = (None, meters_doc (JStr ''abc''))"
proof (intro conjI impI)
  assume h: "path_addr path = Some a \<and> a \<noteq> [] \<and> node_at d a = Some old \<and> is_number old"
  then have ks: "path_keys path \<noteq> []" and ad: "addr (path_keys path) = Some a"
    and n: "node_at d a = Some old"
    by (auto simp: path_addr_def)
  from h have st: "stored old (JStr t) = coerce (JStr t)" by (simp add: stored_def)
  from set_walk_exists[OF ad ks n]
  have w: "set_nested_value d path (JStr t) = (None, put_at d a (stored old (JStr t)))"
    by (simp add: set_nested_value_def)
  then show "fst (set_nested_value d path (JStr t)) = None" by simp
  from w st node_at_put_at[OF n]
  show "node_at (snd (set_nested_value d path (JStr t))) a
          = Some (if CHR ''.'' \<in> set t
                  then (case py_float t of Some x \<Rightarrow> JFloat x | None \<Rightarrow> JStr t)
                  else (case py_int t of Some i \<Rightarrow> JInt i | None \<Rightarrow> JStr t))"
    by (simp split: option.splits)
next
  show "set_nested_value (meters_doc (JInt 10)) ''data.meters[0].quantity'' (JStr ''3.5'')
       = (None, meters_doc (JFloat (7 / 2)))"
    by code_simp
next
  show "set_nested_value (meters_doc (JInt 10)) ''data.meters[0].quantity'' (JStr ''abc'')
       = (None, meters_doc (JStr ''abc''))"
    by code_simp
qed

theorem set_nested_value_numeric_leaf_witness:
  "path_addr ''n'' = Some [KStr ''n''] \<and> [KStr ''n''] \<noteq> []
   \<and> node_at (JDict [(KStr ''n'', JInt 4)]) [KStr ''n''] = Some (JInt 4) \<and> is_number (JInt 4)
   \<and> fst (set_nested_value (JDict [(KStr ''n'', JInt 4)]) ''n'' (JStr ''12'')) = None
   \<and> node_at (snd (set_nested_value (JDict [(KStr ''n'', JInt 4)]) ''n'' (JStr ''12''))) [KStr ''n'']
       = Some (JInt 12)"
proof -
  have p: "path_addr ''n'' = Some [KStr ''n'']" by code_simp
  have n: "node_at (JDict [(KStr ''n'', JInt 4)]) [KStr ''n''] = Some (JInt 4)" by simp
  have d: "CHR ''.'' \<notin> set ''12''" by simp
  have i: "py_int ''12'' = Some 12" by code_simp
  from set_nested_value_numeric_leaf[of "''n''" "[KStr ''n'']" "JDict [(KStr ''n'', JInt 4)]" "JInt 4" "''12''"]
    p n d i show ?thesis by simp
qed

text \<open>
  C7. \<^verbatim>\<open>get_nested_value\<close> returns an error, not a value, whenever the walk reaches a
  node at which the next segment cannot be resolved: a key missing from an object, an index
  out of range for an array, a key applied to an array or an index applied to an object. The
  error is Python's KeyError, IndexError or TypeError (ValueError for a digit that \<^verbatim>\<open>int\<close>
  refuses). In particular \<^verbatim>\<open>get_nested_value({"a": 1}, "b")\<close> fails.
\<close>

theorem get_nested_value_fails:
  "(path_keys path = ks1 @ k # ks2 \<and> get_walk d ks1 = Inr n \<and> unresolvable n k \<longrightarrow>
      (\<exists>e. get_nested_value d path = Inl e))
   \<and> get_nested_value (JDict [(KStr ''a'', JInt 1)]) ''b'' = Inl KeyError"
proof (intro conjI impI)
  assume h: "path_keys path = ks1 @ k # ks2 \<and> get_walk d ks1 = Inr n \<and> unresolvable n k"
  then obtain e where "get_walk n (k # ks2) = Inl e"
    using unresolvable_fails by blast
  with h show "\<exists>e. get_nested_value d path = Inl e"
    by (simp add: get_nested_value_def get_walk_append)
next
  show "get_nested_value (JDict [(KStr ''a'', JInt 1)]) ''b'' = Inl KeyError"
    by code_simp
qed

theorem get_nested_value_fails_witness:
  "path_keys ''a[2].b'' = [''a''] @ ''2'' # [''b'']
   \<and> get_walk (JDict [(KStr ''a'', JList [JInt 5, JInt 6])]) [''a''] = Inr (JList [JInt 5, JInt 6])
   \<and> unresolvable (JList [JInt 5, JInt 6]) ''2''
   \<and> (\<exists>e. get_nested_value (JDict [(KStr ''a'', JList [JInt 5, JInt 6])]) ''a[2].b'' = Inl e)"
proof -
  have p: "path_keys ''a[2].b'' = [''a''] @ ''2'' # [''b'']" by code_simp
  have g: "get_walk (JDict [(KStr ''a'', JList [JInt 5, JInt 6])]) [''a''] = Inr (JList [JInt 5, JInt 6])"
    by code_simp
  have u: "unresolvable (JList [JInt 5, JInt 6]) ''2''" by code_simp
  from get_nested_value_fails[of "''a[2].b''" "[''a'']" "''2''" "[''b'']"
      "JDict [(KStr ''a'', JList [JInt 5, JInt 6])]" "JList [JInt 5, JInt 6]"] p g u
  show ?thesis by blast
qed

text \<open>
  C8. A write that succeeds is idempotent: the same call on the resulting document
  succeeds again and leaves it as it is.
\<close>

theorem set_nested_value_idempotent:
  assumes "set_nested_value d path v = (None, d')"
  shows "set_nested_value d' path v = (None, d')"
proof -
  from assms obtain a old where a: "addr (path_keys path) = Some a" and ne: "a \<noteq> []"
    and n: "node_at d a = Some old" and d': "d' = put_at d a (stored old v)"
    using set_walk_success unfolding set_nested_value_def by blast
  from a ne have ks: "path_keys path \<noteq> []" by auto
  from n d' have n': "node_at d' a = Some (stored old v)" by (simp add: node_at_put_at)
  from set_walk_exists[OF a ks n'] d' show ?thesis
    by (simp add: set_nested_value_def stored_stored put_at_twice)
qed

theorem set_nested_value_idempotent_witness:
  "set_nested_value (meters_doc (JInt 10)) ''data.meters[0].quantity'' (JStr ''2.5'')
     = (None, meters_doc (JFloat (5 / 2)))
   \<and> set_nested_value (meters_doc (JFloat (5 / 2))) ''data.meters[0].quantity'' (JStr ''2.5'')
     = (None, meters_doc (JFloat (5 / 2)))"
proof -
  have h: "set_nested_value (meters_doc (JInt 10)) ''data.meters[0].quantity'' (JStr ''2.5'')
     = (None, meters_doc (JFloat (5 / 2)))"
    by code_simp
  from h set_nested_value_idempotent[OF h] show ?thesis by simp
qed

text \<open>
  C9. An intermediate key missing from an object is created (an object before a non-digit
  segment, an array before a digit segment) and the walk goes on inside it, but the write is
  never completed: the new container is empty, so the read of the next segment in it raises.
\<close>

theorem set_nested_value_vivified_never_written:
  "set_nested_value (JDict [(KStr ''data'', JDict [])]) ''data.tags.team'' (JStr ''eng'')
     = (Some KeyError, JDict [(KStr ''data'', JDict [(KStr ''tags'', JDict [])])])
   \<and> set_nested_value (JDict [(KStr ''data'', JDict [])]) ''data.meters[0]'' (JStr ''m'')
     = (Some IndexError, JDict [(KStr ''data'', JDict [(KStr ''meters'', JList [])])])"
  by code_simp




section \<open>Claims about flattening\<close>

text \<open>
  C1, as it holds. For a document whose root is an object and whose objects, as far as
  \<^verbatim>\<open>flatten_dict\<close> descends into them, have plain keys: writing every pair of the flat
  view back with \<^verbatim>\<open>set_nested_value\<close> raises nothing and leaves the document as it was.
\<close>

theorem round_trip_plain:
  assumes "plain_doc d"
  shows "round_trip d = Inr d"
proof -
  from assms obtain kvs where d: "d = JDict kvs" and pl: "plain_items kvs"
    by (cases d) (auto simp: plain_doc_def)
  let ?fl = "py_dict (flatten_items kvs (KStr []) ''.'')"
  have fl: "flatten d = Inr ?fl" by (simp add: d flatten_def flatten_dict_def)
  have "\<exists>s. fst e = KStr s \<and> set_nested_value d s (snd e) = (None, d)" if "e \<in> set ?fl" for e
  proof -
    from that set_py_dict have "e \<in> set (flatten_items kvs (KStr []) ''.'')" by auto
    with flatten_resolves(1)[OF refl _ pl, of "KStr []"] obtain s rel a where
      e: "fst e = KStr s" "path_keys s = rel" "rel \<noteq> []" "addr rel = Some a"
      "node_at d a = Some (snd e)"
      by (auto simp: d key_str_def path_keys_Nil)
    from set_walk_exists[OF e(4,3,5), of "snd e"] e(2)
    have "set_nested_value d s (snd e) = (None, d)"
      by (simp add: set_nested_value_def stored_self put_at_same[OF e(5)])
    with e(1) show ?thesis by blast
  qed
  then have "apply_pairs d ?fl = Inr d" by (intro apply_pairs_fixed) blast
  with fl show ?thesis by (simp add: round_trip_def)
qed

theorem round_trip_plain_witness:
  "plain_doc (meters_doc (JInt 10)) \<and> round_trip (meters_doc (JInt 10)) = Inr (meters_doc (JInt 10))"
proof -
  have h: "plain_doc (meters_doc (JInt 10))" by code_simp
  from h round_trip_plain[OF h] show ?thesis by simp
qed

text \<open>
  C1 as stated fails on an object with an all-digit key: the flat view of
  \<^verbatim>\<open>{"0": "x"}\<close> has the path \<^verbatim>\<open>0\<close>, which \<^verbatim>\<open>set_nested_value\<close> reads as the
  integer 0, and the lookup raises KeyError.
\<close>

theorem round_trip_digit_key:
  "round_trip (JDict [(KStr ''0'', JStr ''x'')]) = Inl KeyError"
  by code_simp



text \<open>
  C6, as it holds. For a document whose root is an object with non-empty keys, whose
  objects have string keys without \<^verbatim>\<open>.\<close> and \<^verbatim>\<open>[\<close>, and in which no list is an element
  of a list, the flat view has exactly one entry for each scalar leaf.
\<close>

theorem flatten_leaf_coverage:
  assumes "cover_doc d"
  shows "\<exists>fl. flatten d = Inr fl \<and> length fl = count_leaves d"
proof -
  from assms obtain kvs where d: "d = JDict kvs" and cv: "cover_items kvs"
    and ne: "\<forall>kv \<in> set kvs. fst kv \<noteq> KStr []"
    by (cases d) (auto simp: cover_doc_def list_all_iff)
  have k: "is_str_key (KStr [])" by simp
  from ne have ne': "key_str (KStr []) = [] \<longrightarrow> (\<forall>kv \<in> set kvs. fst kv \<noteq> KStr [])" by simp
  have "py_dict (flatten_items kvs (KStr []) ''.'') = flatten_items kvs (KStr []) ''.''"
    using flatten_cover_distinct(1)[OF refl k cv ne']
    by (intro py_dict_distinct distinct_map_fst)
  with flatten_cover_length(1)[OF refl k cv ne'] d show ?thesis
    by (simp add: flatten_def flatten_dict_def)
qed

theorem flatten_leaf_coverage_witness:
  "cover_doc (JDict [(KStr ''0'', JInt 1), (KStr ''meters'',
       JList [JDict [(KStr ''quantity'', JInt 1)], JDict [(KStr ''quantity'', JInt 2)]])])
   \<and> (\<exists>fl. flatten (JDict [(KStr ''0'', JInt 1), (KStr ''meters'',
       JList [JDict [(KStr ''quantity'', JInt 1)], JDict [(KStr ''quantity'', JInt 2)]])]) = Inr fl
       \<and> length fl = count_leaves (JDict [(KStr ''0'', JInt 1), (KStr ''meters'',
       JList [JDict [(KStr ''quantity'', JInt 1)], JDict [(KStr ''quantity'', JInt 2)]])]))"
proof -
  let ?d = "JDict [(KStr ''0'', JInt 1), (KStr ''meters'',
       JList [JDict [(KStr ''quantity'', JInt 1)], JDict [(KStr ''quantity'', JInt 2)]])]"
  have c: "cover_doc ?d" by code_simp
  from c flatten_leaf_coverage[OF c] show ?thesis by blast
qed

text \<open>
  C6 as stated fails whenever two leaves get the same path or a leaf gets none: a key
  with a dot (\<^verbatim>\<open>{"a.b": 1, "a": {"b": 2}}\<close>), a key with a bracket
  (\<^verbatim>\<open>{"a[0]": 1, "a": [2]}\<close>) and an empty key at the root
  (\<^verbatim>\<open>{"": {"a": 1}, "a": 2}\<close>) each give one entry for two leaves; a list inside a list
  is one entry whatever it holds (\<^verbatim>\<open>{"m": [[1, 2, 3]]}\<close>); and a root that is not an
  object has no flat view at all.
\<close>

theorem flatten_fewer_entries_than_leaves:
  "flatten (JDict [(KStr ''a.b'', JInt 1), (KStr ''a'', JDict [(KStr ''b'', JInt 2)])])
     = Inr [(KStr ''a.b'', JInt 2)]
   \<and> count_leaves (JDict [(KStr ''a.b'', JInt 1), (KStr ''a'', JDict [(KStr ''b'', JInt 2)])]) = 2
   \<and> flatten (JDict [(KStr ''a[0]'', JInt 1), (KStr ''a'', JList [JInt 2])])
     = Inr [(KStr ''a[0]'', JInt 2)]
   \<and> count_leaves (JDict [(KStr ''a[0]'', JInt 1), (KStr ''a'', JList [JInt 2])]) = 2
   \<and> flatten (JDict [(KStr [], JDict [(KStr ''a'', JInt 1)]), (KStr ''a'', JInt 2)])
     = Inr [(KStr ''a'', JInt 2)]
   \<and> count_leaves (JDict [(KStr [], JDict [(KStr ''a'', JInt 1)]), (KStr ''a'', JInt 2)]) = 2
   \<and> flatten (JDict [(KStr ''m'', JList [JList [JInt 1, JInt 2, JInt 3]])])
     = Inr [(KStr ''m[0]'', JList [JInt 1, JInt 2, JInt 3])]
   \<and> count_leaves (JDict [(KStr ''m'', JList [JList [JInt 1, JInt 2, JInt 3]])]) = 3
   \<and> flatten (JList [JInt 1]) = Inl AttributeError
   \<and> count_leaves (JList [JInt 1]) = 1"
  by code_simp


end
